theory Spec2Isabelle
  imports Main "HOL-Library.AList" "HOL-Library.Sublist" "HOL-Library.Multiset"
begin

section \<open>The cache manager of src/utils/CacheManager (.js and .ts)\<close>

text \<open>
  The class keeps three things: its configuration, the metadata index
  \<^verbatim>\<open>this.metadata\<close> in memory, and what it leaves on disk (one directory per
  series with one \<^verbatim>\<open>.mp4\<close> file per video, and \<^verbatim>\<open>metadata.json\<close>).
  A JavaScript object whose keys are series codes is an association list in
  insertion order: \<^verbatim>\<open>obj[k] = v\<close> replaces in place or appends
  (\<^const>\<open>AList.update\<close>), \<^verbatim>\<open>delete obj[k]\<close> is \<^const>\<open>AList.delete\<close>, and
  \<^verbatim>\<open>for ... in\<close>, \<^verbatim>\<open>Object.entries\<close> read the list from the left. (Keys that are
  canonical array indices would be enumerated first by JavaScript; series codes
  such as AB001 are not.) Numbers are integers: timestamps are milliseconds from
  \<^verbatim>\<open>Date.now()\<close>, sizes are bytes from \<^verbatim>\<open>fs.statSync\<close>.
\<close>

record VideoMetadata =
  size_bytes :: int
  cachedAt :: int

record SeriesMetadata =
  createdAt :: int
  lastAccessAt :: int
  accessCount :: int
  videos :: "(string \<times> VideoMetadata) list"

type_synonym CacheMetadata = "(string \<times> SeriesMetadata) list"

text \<open>
  What is on disk under a path: a file of some size, or a directory. The file
  system is the list of the paths that exist.
\<close>

datatype node = File int | Dir

type_synonym filesystem = "(string \<times> node) list"

text \<open>
  The file \<^verbatim>\<open>metadata.json\<close>: absent (\<^verbatim>\<open>existsSync\<close> is false), present but
  \<^verbatim>\<open>readFileSync\<close> throws, present with a text on which \<^verbatim>\<open>JSON.parse\<close>
  throws, or present with the JSON text of an index. The JSON text that
  \<^verbatim>\<open>JSON.stringify\<close> writes for an index is identified with the index it parses
  back to.
\<close>

datatype 'm file_state = Missing | Unreadable | Unparseable | Saved 'm

text \<open>
  Which system calls of one operation throw (disk full, permission denied, a
  busy file). A write that throws is taken to leave \<^verbatim>\<open>metadata.json\<close> as it was,
  a copy that throws to leave the target as it was.
\<close>

record faults =
  mkdir_throws :: bool
  copy_throws :: bool
  stat_throws :: bool
  write_throws :: bool
  rm_throws :: "string \<Rightarrow> bool"

record cache =
  cacheDir :: string
  maxCacheSize :: int
  maxAge :: int
  metadata :: CacheMetadata
  metadataFile :: "CacheMetadata file_state"
  disk :: filesystem

record CacheStats =
  totalSize :: int
  totalFiles :: nat
  seriesCount :: nat
  maxSize :: int

text \<open>One element of \<^verbatim>\<open>seriesList\<close> in \<^verbatim>\<open>cleanBySize\<close>.\<close>

record entry =
  code :: string
  lastAccessAt_e :: int
  size_e :: int

subsection \<open>Loading and saving the index\<close>

definition loadMetadata :: "'m list file_state \<Rightarrow> 'm list" where
  "loadMetadata f =
     (case f of
        Missing \<Rightarrow> []
      | Unreadable \<Rightarrow> []
      | Unparseable \<Rightarrow> []
      | Saved m \<Rightarrow> m)"

definition saveMetadata :: "faults \<Rightarrow> cache \<Rightarrow> cache" where
  "saveMetadata io st =
     (if write_throws io then st else st\<lparr>metadataFile := Saved (metadata st)\<rparr>)"

text \<open>\<^verbatim>\<open>a || d\<close> on an optional number: the default for undefined and for 0.\<close>

definition or_default :: "int option \<Rightarrow> int \<Rightarrow> int" where
  "or_default a d = (case a of None \<Rightarrow> d | Some v \<Rightarrow> if v = 0 then d else v)"

definition existsSync :: "filesystem \<Rightarrow> string \<Rightarrow> bool" where
  "existsSync d p = (map_of d p \<noteq> None)"

definition mkdirSync :: "string \<Rightarrow> filesystem \<Rightarrow> filesystem" where
  "mkdirSync p d = AList.update p Dir d"

definition ensureCacheDir :: "cache \<Rightarrow> cache" where
  "ensureCacheDir st =
     (if \<not> existsSync (disk st) (cacheDir st)
      then st\<lparr>disk := mkdirSync (cacheDir st) (disk st)\<rparr> else st)"

text \<open>
  The constructor. \<^verbatim>\<open>ensureCacheDir\<close> is outside any try block: where
  \<^verbatim>\<open>mkdirSync\<close> throws, the constructor throws (\<open>None\<close>).
\<close>

definition CacheManager_new ::
  "faults \<Rightarrow> string \<Rightarrow> int option \<Rightarrow> int option \<Rightarrow> CacheMetadata file_state \<Rightarrow>
   filesystem \<Rightarrow> cache option" where
  "CacheManager_new io dir optSize optAge f d =
     (let st = \<lparr>cacheDir = dir,
                maxCacheSize = or_default optSize (1024 * 1024 * 1024),
                maxAge = or_default optAge (7 * 24 * 60 * 60 * 1000),
                metadata = loadMetadata f,
                metadataFile = f,
                disk = d\<rparr>
      in if \<not> existsSync d dir \<and> mkdir_throws io then None
         else Some (ensureCacheDir st))"

subsection \<open>Paths and lookups\<close>

text \<open>\<^verbatim>\<open>path.join\<close> of two parts, without the normalisation of dots.\<close>

definition path_join :: "string \<Rightarrow> string \<Rightarrow> string" where
  "path_join a b = a @ ''/'' @ b"

text \<open>The path \<open>p\<close> names an entry of the directory \<open>dir\<close> itself.\<close>

definition direct_child :: "string \<Rightarrow> string \<Rightarrow> bool" where
  "direct_child dir p =
     (prefix (dir @ ''/'') p \<and>
      (let name = drop (length dir + 1) p in name \<noteq> [] \<and> CHR ''/'' \<notin> set name))"

definition getSeriesDir :: "cache \<Rightarrow> string \<Rightarrow> string" where
  "getSeriesDir st seriesCode = path_join (cacheDir st) seriesCode"

definition getVideoPath :: "cache \<Rightarrow> string \<Rightarrow> string \<Rightarrow> string" where
  "getVideoPath st seriesCode videoId =
     path_join (getSeriesDir st seriesCode) (videoId @ ''.mp4'')"

definition isCached :: "cache \<Rightarrow> string \<Rightarrow> string \<Rightarrow> bool" where
  "isCached st seriesCode videoId =
     existsSync (disk st) (getVideoPath st seriesCode videoId)"

definition isSeriesCached :: "cache \<Rightarrow> string \<Rightarrow> string list \<Rightarrow> bool" where
  "isSeriesCached st seriesCode videoIds = list_all (isCached st seriesCode) videoIds"

definition updateAccessTime ::
  "faults \<Rightarrow> int \<Rightarrow> string \<Rightarrow> string \<Rightarrow> cache \<Rightarrow> cache" where
  "updateAccessTime io now seriesCode videoId st =
     (case map_of (metadata st) seriesCode of
        None \<Rightarrow> st
      | Some s \<Rightarrow>
          saveMetadata io
            (st\<lparr>metadata :=
                  AList.update seriesCode
                    (s\<lparr>lastAccessAt := now, accessCount := accessCount s + 1\<rparr>)
                    (metadata st)\<rparr>))"

definition getCachedVideo ::
  "faults \<Rightarrow> int \<Rightarrow> string \<Rightarrow> string \<Rightarrow> cache \<Rightarrow> string option \<times> cache" where
  "getCachedVideo io now seriesCode videoId st =
     (let videoPath = getVideoPath st seriesCode videoId
      in if existsSync (disk st) videoPath
         then (Some videoPath, updateAccessTime io now seriesCode videoId st)
         else (None, st))"

subsection \<open>Inserting a video\<close>

text \<open>
  \<^verbatim>\<open>fs.copyFileSync\<close> throws when the source is not a file, when the target
  is a directory, or when the copy fails; otherwise the target holds a file of
  the source's size.
\<close>

definition copyFileSync :: "faults \<Rightarrow> string \<Rightarrow> string \<Rightarrow> filesystem \<Rightarrow> filesystem option" where
  "copyFileSync io src dst d =
     (case map_of d src of
        Some (File n) \<Rightarrow>
          if copy_throws io \<or> map_of d dst = Some Dir then None
          else Some (AList.update dst (File n) d)
      | _ \<Rightarrow> None)"

definition statSync_size :: "faults \<Rightarrow> filesystem \<Rightarrow> string \<Rightarrow> int option" where
  "statSync_size io d p =
     (if stat_throws io then None
      else case map_of d p of Some (File n) \<Rightarrow> Some n | Some Dir \<Rightarrow> Some 0 | None \<Rightarrow> None)"

text \<open>
  The update of the index in \<^verbatim>\<open>cacheVideo\<close>: the entry is created when the
  series has none, the video is upserted, the access time and count are bumped.
\<close>

definition indexVideo :: "int \<Rightarrow> string \<Rightarrow> string \<Rightarrow> int \<Rightarrow> CacheMetadata \<Rightarrow> CacheMetadata" where
  "indexVideo now seriesCode videoId fileSize m =
     (let s0 = (case map_of m seriesCode of
                  None \<Rightarrow> \<lparr>createdAt = now, lastAccessAt = now, accessCount = 0, videos = []\<rparr>
                | Some s \<Rightarrow> s);
          s1 = s0\<lparr>videos := AList.update videoId
                   \<lparr>size_bytes = fileSize, cachedAt = now\<rparr> (videos s0)\<rparr>;
          s2 = s1\<lparr>lastAccessAt := now, accessCount := accessCount s1 + 1\<rparr>
      in AList.update seriesCode s2 m)"

definition cacheVideo ::
  "faults \<Rightarrow> int \<Rightarrow> string \<Rightarrow> string \<Rightarrow> string \<Rightarrow> cache \<Rightarrow> string option \<times> cache" where
  "cacheVideo io now seriesCode videoId filePath st =
     (let seriesDir = getSeriesDir st seriesCode
      in if \<not> existsSync (disk st) seriesDir \<and> mkdir_throws io then (None, st)
         else
           let st1 = (if \<not> existsSync (disk st) seriesDir
                      then st\<lparr>disk := mkdirSync seriesDir (disk st)\<rparr> else st);
               targetPath = getVideoPath st seriesCode videoId
           in case copyFileSync io filePath targetPath (disk st1) of
                None \<Rightarrow> (None, st1)
              | Some d2 \<Rightarrow>
                  (case statSync_size io d2 targetPath of
                     None \<Rightarrow> (None, st1\<lparr>disk := d2\<rparr>)
                   | Some fileSize \<Rightarrow>
                       (Some targetPath,
                        saveMetadata io
                          (st1\<lparr>disk := d2,
                               metadata :=
                                 indexVideo now seriesCode videoId fileSize (metadata st1)\<rparr>))))"

subsection \<open>Statistics and removal\<close>

definition seriesSize :: "SeriesMetadata \<Rightarrow> int" where
  "seriesSize s = sum_list (map (\<lambda>(videoId, v). size_bytes v) (videos s))"

text \<open>\<^verbatim>\<open>getCacheStats\<close>, without the formatted \<^verbatim>\<open>usagePercent\<close>, which only the log reads.\<close>

definition getCacheStats :: "cache \<Rightarrow> CacheStats" where
  "getCacheStats st =
     \<lparr>totalSize = sum_list (map (\<lambda>(seriesCode, s). seriesSize s) (metadata st)),
      totalFiles = sum_list (map (\<lambda>(seriesCode, s). length (videos s)) (metadata st)),
      seriesCount = length (metadata st),
      maxSize = maxCacheSize st\<rparr>"

text \<open>\<^verbatim>\<open>fs.rmSync(dir, {recursive: true, force: true})\<close>.\<close>

definition rmSync :: "string \<Rightarrow> filesystem \<Rightarrow> filesystem" where
  "rmSync dir d = filter (\<lambda>(p, n). \<not> (p = dir \<or> prefix (dir @ ''/'') p)) d"

text \<open>
  \<^verbatim>\<open>removeSeries\<close>: the directory goes first; where \<^verbatim>\<open>rmSync\<close> throws, the
  catch block logs and the index entry stays.
\<close>

definition removeSeries :: "faults \<Rightarrow> string \<Rightarrow> cache \<Rightarrow> cache" where
  "removeSeries io seriesCode st =
     (let seriesDir = getSeriesDir st seriesCode
      in if existsSync (disk st) seriesDir \<and> rm_throws io seriesDir then st
         else
           let st1 = (if existsSync (disk st) seriesDir
                      then st\<lparr>disk := rmSync seriesDir (disk st)\<rparr> else st)
           in saveMetadata io (st1\<lparr>metadata := AList.delete seriesCode (metadata st1)\<rparr>))"

subsection \<open>Eviction\<close>

text \<open>
  The \<^verbatim>\<open>for ... in\<close> loop of \<^verbatim>\<open>cleanOldEntries\<close> over the keys the index had
  when the loop began; a key deleted meanwhile is skipped. \<open>now\<close> is read once,
  before the loop.
\<close>

fun cleanOldLoop :: "faults \<Rightarrow> int \<Rightarrow> string list \<Rightarrow> cache \<Rightarrow> cache" where
  "cleanOldLoop io now [] st = st"
| "cleanOldLoop io now (seriesCode # rest) st =
     cleanOldLoop io now rest
       (case map_of (metadata st) seriesCode of
          None \<Rightarrow> st
        | Some series \<Rightarrow>
            if now - createdAt series > maxAge st
            then removeSeries io seriesCode st else st)"

definition cleanOldEntries :: "faults \<Rightarrow> int \<Rightarrow> cache \<Rightarrow> cache" where
  "cleanOldEntries io now st = cleanOldLoop io now (map fst (metadata st)) st"

text \<open>
  The loop of \<^verbatim>\<open>cleanBySize\<close>. The test \<^verbatim>\<open>currentSize <= maxCacheSize * 0.8\<close> is
  taken exactly, as \<open>10 * currentSize \<le> 8 * maxCacheSize\<close>.
\<close>

fun evictLoop :: "faults \<Rightarrow> entry list \<Rightarrow> int \<Rightarrow> cache \<Rightarrow> cache" where
  "evictLoop io [] currentSize st = st"
| "evictLoop io (series # rest) currentSize st =
     (if 10 * currentSize \<le> 8 * maxCacheSize st then st
      else evictLoop io rest (currentSize - size_e series)
             (removeSeries io (code series) st))"

text \<open>
  \<^verbatim>\<open>Array.prototype.sort\<close> is stable, and the comparator looks at
  \<^verbatim>\<open>lastAccessAt\<close> only: \<^const>\<open>sort_key\<close> is that sort.
\<close>

definition seriesList :: "cache \<Rightarrow> entry list" where
  "seriesList st =
     sort_key lastAccessAt_e
       (map (\<lambda>(c, d). \<lparr>code = c, lastAccessAt_e = lastAccessAt d, size_e = seriesSize d\<rparr>)
            (metadata st))"

definition cleanBySize :: "faults \<Rightarrow> cache \<Rightarrow> cache" where
  "cleanBySize io st =
     (let stats = getCacheStats st
      in if totalSize stats \<le> maxCacheSize st then st
         else evictLoop io (seriesList st) (totalSize stats) st)"

definition cleanup :: "faults \<Rightarrow> int \<Rightarrow> cache \<Rightarrow> cache" where
  "cleanup io now st = cleanBySize io (cleanOldEntries io now st)"

subsection \<open>Sequences of operations\<close>

text \<open>
  The calls a client makes on a cache manager, each with the faults it meets
  and the reading of the clock, and a run of such calls from a state: the values
  returned and the state left.
\<close>

datatype cache_op =
    Put faults int string string string
  | Get faults int string string
  | Remove faults string
  | Evict faults int

fun apply_op :: "cache_op \<Rightarrow> cache \<Rightarrow> string option \<times> cache" where
  "apply_op (Put io now seriesCode videoId filePath) st =
     cacheVideo io now seriesCode videoId filePath st"
| "apply_op (Get io now seriesCode videoId) st = getCachedVideo io now seriesCode videoId st"
| "apply_op (Remove io seriesCode) st = (None, removeSeries io seriesCode st)"
| "apply_op (Evict io now) st = (None, cleanup io now st)"

fun run_ops :: "cache_op list \<Rightarrow> cache \<Rightarrow> string option list \<times> cache" where
  "run_ops [] st = ([], st)"
| "run_ops (x # xs) st =
     (let (r, st1) = apply_op x st;
          (rs, st2) = run_ops xs st1
      in (r # rs, st2))"

text \<open>Two states that differ at most in what \<^verbatim>\<open>metadata.json\<close> holds.\<close>

definition same_but_file :: "cache \<Rightarrow> cache \<Rightarrow> bool" where
  "same_but_file a b =
     (cacheDir a = cacheDir b \<and> maxCacheSize a = maxCacheSize b \<and> maxAge a = maxAge b \<and>
      metadata a = metadata b \<and> disk a = disk b)"

section \<open>The series configuration (config/series.config)\<close>

definition seriesMapping :: "(string \<times> string) list" where
  "seriesMapping = [(''AB001'', ''wbsd06''), (''AB002'', ''dfhjuuu''), (''AB003'', ''wbsd08'')]"

text \<open>\<^verbatim>\<open>String.prototype.toUpperCase\<close> on ASCII text.\<close>

definition upper_char :: "char \<Rightarrow> char" where
  "upper_char c =
     (let n = (of_char c :: nat) in if 97 \<le> n \<and> n \<le> 122 then char_of (n - 32) else c)"

definition toUpperCase :: "string \<Rightarrow> string" where
  "toUpperCase s = map upper_char s"

text \<open>The configuration's functions, with the mapping they read as a parameter.\<close>

definition getTelegramGroup :: "(string \<times> string) list \<Rightarrow> string \<Rightarrow> string option" where
  "getTelegramGroup mapping seriesCode =
     (case map_of mapping (toUpperCase seriesCode) of
        None \<Rightarrow> None
      | Some g \<Rightarrow> if g = [] then None else Some g)"

definition isValidSeries :: "(string \<times> string) list \<Rightarrow> string \<Rightarrow> bool" where
  "isValidSeries mapping seriesCode = (map_of mapping (toUpperCase seriesCode) \<noteq> None)"

section \<open>The message handler (src/handlers/MessageHandler)\<close>

text \<open>
  Of a \<^verbatim>\<open>VideoInfo\<close> the handler reads the id and the caption. \<^verbatim>\<open>Number.toString\<close>
  on an integer id is its decimal notation.
\<close>

record VideoInfo =
  id_v :: int
  caption :: string

fun digits :: "nat \<Rightarrow> string" where
  "digits n = (if n < 10 then [char_of (48 + n)] else digits (n div 10) @ [char_of (48 + n mod 10)])"

definition toString :: "int \<Rightarrow> string" where
  "toString i = (if i < 0 then CHR ''-'' # digits (nat (- i)) else digits (nat i))"

text \<open>What the handler sends to a chat, by \<^verbatim>\<open>message.reply\<close> or \<^verbatim>\<open>client.sendMessage\<close>.\<close>

datatype message =
    PleaseWait
  | SeriesNotFound string
  | FoundSeries string
  | NoVideos
  | FoundCached nat
  | FoundDownloading nat
  | Video nat nat string string
  | Skipping nat
  | AllSent
  | RequestFailed

text \<open>
  The calls on the map \<^verbatim>\<open>activeRequests\<close>, in the order they are made;
  \<open>LockDelete k b\<close> is \<^verbatim>\<open>activeRequests.delete(k)\<close> returning \<open>b\<close>: whether the
  key was there.
\<close>

datatype lock_op = LockSet string string | LockDelete string bool

datatype outcome = Returned | Thrown

text \<open>
  What the collaborators answer during one request: which sends are rejected,
  what the Telegram service returns (\<open>None\<close>: the promise is rejected; a
  download gives the path and the size of the file it wrote), which file
  operations throw, and what \<^verbatim>\<open>Date.now()\<close> reads while video \<open>i\<close> is handled.
\<close>

record env =
  deliver_throws :: "string \<Rightarrow> message \<Rightarrow> bool"
  fetchVideosFromGroup :: "string \<Rightarrow> VideoInfo list option"
  downloadVideo :: "VideoInfo \<Rightarrow> (string \<times> int) option"
  media_throws :: "string \<Rightarrow> bool"
  unlink_throws :: "string \<Rightarrow> bool"
  cleanTemp_throws :: bool
  db_throws :: bool
  cache_faults :: faults
  clock :: "nat \<Rightarrow> int"

record handler =
  activeRequests :: "string \<Rightarrow> string option"
  cacheManager :: cache
  outbox :: "(string \<times> message) list"
  userRequests :: "(string \<times> string) list"
  lockLog :: "lock_op list"

definition lockSet :: "string \<Rightarrow> string \<Rightarrow> handler \<Rightarrow> handler" where
  "lockSet chatId c h =
     h\<lparr>activeRequests := (activeRequests h)(chatId \<mapsto> c),
       lockLog := lockLog h @ [LockSet chatId c]\<rparr>"

definition lockDelete :: "string \<Rightarrow> handler \<Rightarrow> handler" where
  "lockDelete chatId h =
     h\<lparr>activeRequests := (activeRequests h)(chatId := None),
       lockLog := lockLog h @ [LockDelete chatId (activeRequests h chatId \<noteq> None)]\<rparr>"

definition deliver :: "env \<Rightarrow> string \<Rightarrow> message \<Rightarrow> handler \<Rightarrow> outcome \<times> handler" where
  "deliver E chatId m h =
     (if deliver_throws E chatId m then (Thrown, h)
      else (Returned, h\<lparr>outbox := outbox h @ [(chatId, m)]\<rparr>))"

text \<open>Sequencing of awaited steps: a step that throws ends the sequence.\<close>

definition andThen ::
  "outcome \<times> handler \<Rightarrow> (handler \<Rightarrow> outcome \<times> handler) \<Rightarrow> outcome \<times> handler" where
  "andThen r f = (case r of (Thrown, h) \<Rightarrow> (Thrown, h) | (Returned, h) \<Rightarrow> f h)"

text \<open>
  \<^verbatim>\<open>DatabaseManager.updateUserRequest\<close> catches its own errors, so the await never
  rejects.
\<close>

definition updateUserRequest :: "env \<Rightarrow> string \<Rightarrow> string \<Rightarrow> handler \<Rightarrow> outcome \<times> handler" where
  "updateUserRequest E chatId c h =
     (if db_throws E then (Returned, h)
      else (Returned, h\<lparr>userRequests := userRequests h @ [(chatId, c)]\<rparr>))"

definition unlinkSync :: "string \<Rightarrow> filesystem \<Rightarrow> filesystem" where
  "unlinkSync p d = AList.delete p d"

text \<open>
  \<^verbatim>\<open>cleanTempDirectory\<close> unlinks the plain files directly under the directory,
  inside its own try block (a throw part-way is taken as a throw at the start).
\<close>

definition cleanTempDirectory :: "env \<Rightarrow> string \<Rightarrow> filesystem \<Rightarrow> filesystem" where
  "cleanTempDirectory E dirPath d =
     (if \<not> existsSync d dirPath \<or> cleanTemp_throws E then d
      else filter (\<lambda>(p, n). \<not> (n \<noteq> Dir \<and> direct_child dirPath p)) d)"

definition tempDir :: string where
  "tempDir = ''./temp''"

text \<open>
  From \<^verbatim>\<open>MessageMedia.fromFilePath\<close> to the end of the try block of
  \<^verbatim>\<open>sendVideosInOrder\<close>, for one video; \<open>cached\<close> says whether the path came
  from the cache.
\<close>

definition sendFile ::
  "env \<Rightarrow> string \<Rightarrow> nat \<Rightarrow> nat \<Rightarrow> VideoInfo \<Rightarrow> string \<Rightarrow> bool \<Rightarrow> handler \<Rightarrow> outcome \<times> handler" where
  "sendFile E chatId videoNumber nVideos video filePath cached h =
     (if \<not> existsSync (disk (cacheManager h)) filePath \<or> media_throws E filePath
      then (Thrown, h)
      else
        andThen (deliver E chatId (Video videoNumber nVideos filePath (caption video)) h)
          (\<lambda>h2. if \<not> cached \<and> existsSync (disk (cacheManager h2)) filePath
                then (if unlink_throws E filePath then (Thrown, h2)
                      else (Returned,
                            h2\<lparr>cacheManager := (cacheManager h2)
                                 \<lparr>disk := unlinkSync filePath (disk (cacheManager h2))\<rparr>\<rparr>))
                else (Returned, h2)))"

text \<open>The try block of the loop of \<^verbatim>\<open>sendVideosInOrder\<close>, for the video at index \<open>i\<close>.\<close>

definition sendOne ::
  "env \<Rightarrow> string \<Rightarrow> string \<Rightarrow> nat \<Rightarrow> nat \<Rightarrow> VideoInfo \<Rightarrow> handler \<Rightarrow> outcome \<times> handler" where
  "sendOne E chatId seriesCode nVideos i video h =
     (let videoNumber = i + 1;
          videoId = toString (id_v video);
          (cachedPath, cm1) =
             getCachedVideo (cache_faults E) (clock E i) seriesCode videoId (cacheManager h);
          h1 = h\<lparr>cacheManager := cm1\<rparr>
      in case cachedPath of
           Some p \<Rightarrow> sendFile E chatId videoNumber nVideos video p True h1
         | None \<Rightarrow>
             (case downloadVideo E video of
                None \<Rightarrow> (Thrown, h1)
              | Some (filePath, n) \<Rightarrow>
                  let cm2 = cm1\<lparr>disk := AList.update filePath (File n) (disk cm1)\<rparr>;
                      cm3 = snd (cacheVideo (cache_faults E) (clock E i) seriesCode videoId
                                   filePath cm2)
                  in sendFile E chatId videoNumber nVideos video filePath False
                       (h1\<lparr>cacheManager := cm3\<rparr>)))"

text \<open>
  The loop: a video whose try block throws is answered by the skip message, and
  the loop goes on; when that message is rejected too, the error leaves the
  function.
\<close>

fun sendLoop ::
  "env \<Rightarrow> string \<Rightarrow> string \<Rightarrow> nat \<Rightarrow> nat \<Rightarrow> VideoInfo list \<Rightarrow> handler \<Rightarrow> outcome \<times> handler" where
  "sendLoop E chatId seriesCode nVideos i [] h = (Returned, h)"
| "sendLoop E chatId seriesCode nVideos i (video # rest) h =
     (case sendOne E chatId seriesCode nVideos i video h of
        (Returned, h1) \<Rightarrow> sendLoop E chatId seriesCode nVideos (i + 1) rest h1
      | (Thrown, h1) \<Rightarrow>
          andThen (deliver E chatId (Skipping (i + 1)) h1)
            (sendLoop E chatId seriesCode nVideos (i + 1) rest))"

definition sendVideosInOrder ::
  "env \<Rightarrow> VideoInfo list \<Rightarrow> string \<Rightarrow> string \<Rightarrow> handler \<Rightarrow> outcome \<times> handler" where
  "sendVideosInOrder E videoList chatId seriesCode h =
     andThen (sendLoop E chatId seriesCode (length videoList) 0 videoList h)
       (\<lambda>h1. (Returned,
              h1\<lparr>cacheManager := (cacheManager h1)
                   \<lparr>disk := cleanTempDirectory E tempDir (disk (cacheManager h1))\<rparr>\<rparr>))"

text \<open>The try block of \<^verbatim>\<open>handleSeriesRequest\<close>.\<close>

definition tryBlock ::
  "(string \<times> string) list \<Rightarrow> env \<Rightarrow> string \<Rightarrow> string \<Rightarrow> handler \<Rightarrow> outcome \<times> handler" where
  "tryBlock mapping E c chatId h =
     (let h0 = lockSet chatId c h
      in case getTelegramGroup mapping c of
           None \<Rightarrow> (Thrown, h0)
         | Some groupUsername \<Rightarrow>
             andThen (deliver E chatId (FoundSeries c) h0)
               (\<lambda>h1. case fetchVideosFromGroup E groupUsername of
                        None \<Rightarrow> (Thrown, h1)
                      | Some videoList \<Rightarrow>
                          if length videoList = 0
                          then andThen (deliver E chatId NoVideos h1)
                                 (\<lambda>h2. (Returned, lockDelete chatId h2))
                          else
                            let videoIds = map (\<lambda>v. toString (id_v v)) videoList;
                                isCached = isSeriesCached (cacheManager h1) c videoIds
                            in andThen
                                 (deliver E chatId
                                    (if isCached then FoundCached (length videoList)
                                     else FoundDownloading (length videoList)) h1)
                                 (\<lambda>h2. andThen (sendVideosInOrder E videoList chatId c h2)
                                    (\<lambda>h3. andThen (updateUserRequest E chatId c h3)
                                       (deliver E chatId AllSent)))))"

text \<open>
  \<^verbatim>\<open>handleSeriesRequest\<close>: the two guards, then try, catch and finally. The
  promise is rejected (\<open>Thrown\<close>) when a reply outside the try block, or the
  reply of the catch block, is rejected.
\<close>

definition handleSeriesRequest ::
  "(string \<times> string) list \<Rightarrow> env \<Rightarrow> string \<Rightarrow> string \<Rightarrow> handler \<Rightarrow> outcome \<times> handler" where
  "handleSeriesRequest mapping E seriesCode chatId h =
     (if activeRequests h chatId \<noteq> None then deliver E chatId PleaseWait h
      else
        let c = toUpperCase seriesCode
        in if \<not> isValidSeries mapping c then deliver E chatId (SeriesNotFound c) h
           else
             let r = tryBlock mapping E c chatId h;
                 r' = (case r of
                         (Thrown, h1) \<Rightarrow> deliver E chatId RequestFailed h1
                       | (Returned, h1) \<Rightarrow> (Returned, h1))
             in (fst r', lockDelete chatId (snd r')))"

section \<open>The cache manager of the single-file bundle (whatsapp-telegram-bot.ts)\<close>

text \<open>
  The bundle carries a cache manager of its own. It keeps no index in memory:
  every operation loads \<^verbatim>\<open>metadata.json\<close> and writes it back. An entry holds
  the ids of the videos, the time of the last access and the size of the
  directory; it has no creation time and no access count.
\<close>

record BundleSeries =
  files :: "string list"
  lastAccessed :: int
  size_b :: int

type_synonym BundleMetadata = "(string \<times> BundleSeries) list"

record bundle_cache =
  cacheDir_b :: string
  maxCacheSize_b :: int
  maxAge_b :: int
  metadataFile_b :: "BundleMetadata file_state"
  disk_b :: filesystem

definition saveMetadata_b :: "faults \<Rightarrow> BundleMetadata \<Rightarrow> bundle_cache \<Rightarrow> bundle_cache" where
  "saveMetadata_b io m st = (if write_throws io then st else st\<lparr>metadataFile_b := Saved m\<rparr>)"

text \<open>
  \<^verbatim>\<open>getDirectorySize\<close> adds up the plain files of the directory, inside its own
  try block (a \<^verbatim>\<open>statSync\<close> that throws is taken to throw at the first file).
\<close>

definition getDirectorySize :: "faults \<Rightarrow> filesystem \<Rightarrow> string \<Rightarrow> int" where
  "getDirectorySize io d dirPath =
     (if \<not> existsSync d dirPath \<or> stat_throws io then 0
      else sum_list (map (\<lambda>(p, n). case n of File k \<Rightarrow> k | Dir \<Rightarrow> 0)
                         (filter (\<lambda>(p, n). direct_child dirPath p) d)))"

definition getCachedVideo_b ::
  "faults \<Rightarrow> int \<Rightarrow> string \<Rightarrow> string \<Rightarrow> bundle_cache \<Rightarrow> string option \<times> bundle_cache" where
  "getCachedVideo_b io now seriesCode videoId st =
     (let seriesDir = path_join (cacheDir_b st) seriesCode;
          cachedPath = path_join seriesDir (videoId @ ''.mp4'')
      in if existsSync (disk_b st) cachedPath
         then (let m = loadMetadata (metadataFile_b st)
               in (Some cachedPath,
                   case map_of m seriesCode of
                     None \<Rightarrow> st
                   | Some s \<Rightarrow>
                       saveMetadata_b io
                         (AList.update seriesCode (s\<lparr>lastAccessed := now\<rparr>) m) st))
         else (None, st))"

definition removeSeries_b :: "faults \<Rightarrow> string \<Rightarrow> bundle_cache \<Rightarrow> bundle_cache" where
  "removeSeries_b io seriesCode st =
     (let seriesDir = path_join (cacheDir_b st) seriesCode
      in if existsSync (disk_b st) seriesDir \<and> rm_throws io seriesDir then st
         else
           let st1 = (if existsSync (disk_b st) seriesDir
                      then st\<lparr>disk_b := rmSync seriesDir (disk_b st)\<rparr> else st);
               m = loadMetadata (metadataFile_b st1)
           in saveMetadata_b io (AList.delete seriesCode m) st1)"

text \<open>
  The second loop of \<^verbatim>\<open>enforceCache\<close>: it reads the sizes from the index as
  it was loaded at the start of \<^verbatim>\<open>enforceCache\<close>, and stops once the running
  total is within \<^verbatim>\<open>maxCacheSize\<close>.
\<close>

fun sizeLoop_b ::
  "faults \<Rightarrow> BundleMetadata \<Rightarrow> string list \<Rightarrow> int \<Rightarrow> bundle_cache \<Rightarrow> bundle_cache" where
  "sizeLoop_b io m [] totalSize_b st = st"
| "sizeLoop_b io m (seriesCode # rest) totalSize_b st =
     (if totalSize_b \<le> maxCacheSize_b st then st
      else
        let seriesSize_b = (case map_of m seriesCode of None \<Rightarrow> 0 | Some s \<Rightarrow> size_b s)
        in sizeLoop_b io m rest (totalSize_b - seriesSize_b) (removeSeries_b io seriesCode st))"

text \<open>\<^verbatim>\<open>enforceCache\<close>: the age pass compares \<^verbatim>\<open>lastAccessed\<close>.\<close>

definition enforceCache :: "faults \<Rightarrow> int \<Rightarrow> bundle_cache \<Rightarrow> bundle_cache" where
  "enforceCache io now st =
     (let m = loadMetadata (metadataFile_b st);
          totalSize_b = sum_list (map (\<lambda>(seriesCode, s). size_b s) m);
          seriesToRemove =
            map fst (filter (\<lambda>(seriesCode, s). now - lastAccessed s > maxAge_b st) m);
          st1 = foldl (\<lambda>s seriesCode. removeSeries_b io seriesCode s) st seriesToRemove;
          sortedSeries = sort_key (\<lambda>(seriesCode, s). lastAccessed s) m
      in sizeLoop_b io m (map fst sortedSeries) totalSize_b st1)"

text \<open>\<^verbatim>\<open>cacheVideo\<close> of the bundle returns nothing, and ends with \<^verbatim>\<open>enforceCache\<close>.\<close>

definition cacheVideo_b ::
  "faults \<Rightarrow> int \<Rightarrow> string \<Rightarrow> string \<Rightarrow> string \<Rightarrow> bundle_cache \<Rightarrow> bundle_cache" where
  "cacheVideo_b io now seriesCode videoId sourcePath st =
     (let seriesDir = path_join (cacheDir_b st) seriesCode
      in if \<not> existsSync (disk_b st) seriesDir \<and> mkdir_throws io then st
         else
           let st1 = (if \<not> existsSync (disk_b st) seriesDir
                      then st\<lparr>disk_b := mkdirSync seriesDir (disk_b st)\<rparr> else st);
               cachedPath = path_join seriesDir (videoId @ ''.mp4'')
           in case copyFileSync io sourcePath cachedPath (disk_b st1) of
                None \<Rightarrow> st1
              | Some d2 \<Rightarrow>
                  let st2 = st1\<lparr>disk_b := d2\<rparr>;
                      m = loadMetadata (metadataFile_b st2);
                      s0 = (case map_of m seriesCode of
                              None \<Rightarrow> \<lparr>files = [], lastAccessed = now, size_b = 0\<rparr>
                            | Some s \<Rightarrow> s);
                      s1 = s0\<lparr>files := (if videoId \<in> set (files s0) then files s0
                                         else files s0 @ [videoId])\<rparr>;
                      s2 = s1\<lparr>lastAccessed := now,
                             size_b := getDirectorySize io d2 seriesDir\<rparr>
                  in enforceCache io now
                       (saveMetadata_b io (AList.update seriesCode s2 m) st2))"

definition isSeriesCached_b :: "bundle_cache \<Rightarrow> string \<Rightarrow> string list \<Rightarrow> bool" where
  "isSeriesCached_b st seriesCode videoIds =
     (case map_of (loadMetadata (metadataFile_b st)) seriesCode of
        None \<Rightarrow> False
      | Some cachedSeries \<Rightarrow> list_all (\<lambda>i. i \<in> set (files cachedSeries)) videoIds)"

section \<open>Requests in flight, and the states of the cache\<close>

subsection \<open>Requests in flight\<close>

text \<open>
  \<^verbatim>\<open>handleSeriesRequest\<close> is an async function: it runs without a break from
  its entry to its first \<^verbatim>\<open>await\<close>, and other requests run while it waits.
  There is no \<^verbatim>\<open>await\<close> between the test \<^verbatim>\<open>activeRequests.has(chatId)\<close> and
  \<^verbatim>\<open>activeRequests.set(chatId, code)\<close>, so the two guards and the set are one
  step (\<open>request\<close>); what a call is doing once that step is over is its stage.
  A call that was let in ends by the delete of the finally block (\<open>settle\<close>);
  between the two it never reads or writes the map.
\<close>

datatype stage = Rejecting | Refusing | Working string

definition admit ::
  "(string \<times> string) list \<Rightarrow> string \<Rightarrow> string \<Rightarrow> (string \<Rightarrow> string option) \<Rightarrow> stage" where
  "admit mapping seriesCode chatId active =
     (if active chatId \<noteq> None then Rejecting
      else
        let c = toUpperCase seriesCode
        in if \<not> isValidSeries mapping c then Refusing else Working c)"

record system =
  locks :: "string \<Rightarrow> string option"
  running :: "(string \<times> stage) multiset"

definition request :: "(string \<times> string) list \<Rightarrow> string \<Rightarrow> string \<Rightarrow> system \<Rightarrow> system" where
  "request mapping seriesCode chatId s =
     (case admit mapping seriesCode chatId (locks s) of
        Working c \<Rightarrow>
          s\<lparr>locks := (locks s)(chatId \<mapsto> c),
            running := add_mset (chatId, Working c) (running s)\<rparr>
      | t \<Rightarrow> s\<lparr>running := add_mset (chatId, t) (running s)\<rparr>)"

definition settle :: "string \<Rightarrow> stage \<Rightarrow> system \<Rightarrow> system" where
  "settle chatId t s =
     (case t of
        Working c \<Rightarrow>
          s\<lparr>locks := (locks s)(chatId := None),
            running := running s - {#(chatId, t)#}\<rparr>
      | _ \<Rightarrow> s\<lparr>running := running s - {#(chatId, t)#}\<rparr>)"

inductive reachable :: "(string \<times> string) list \<Rightarrow> system \<Rightarrow> bool"
  for mapping :: "(string \<times> string) list" where
  start: "reachable mapping \<lparr>locks = (\<lambda>k. None), running = {#}\<rparr>"
| request: "reachable mapping s \<Longrightarrow> reachable mapping (request mapping seriesCode chatId s)"
| settle: "reachable mapping s \<Longrightarrow> (chatId, t) \<in># running s \<Longrightarrow>
           reachable mapping (settle chatId t s)"

definition is_working :: "stage \<Rightarrow> bool" where
  "is_working t = (case t of Working c \<Rightarrow> True | _ \<Rightarrow> False)"

definition in_flight :: "system \<Rightarrow> string \<Rightarrow> nat" where
  "in_flight s chatId = size (filter_mset (\<lambda>(k, t). k = chatId \<and> is_working t) (running s))"

subsection \<open>Reachable states of the cache\<close>

text \<open>
  The states a cache manager goes through: it is constructed over a file that
  gives the empty index, or over what an earlier manager left on disk; then
  come \<^verbatim>\<open>cacheVideo\<close>, \<^verbatim>\<open>getCachedVideo\<close>, \<^verbatim>\<open>removeSeries\<close> and \<^verbatim>\<open>cleanup\<close>,
  with any faults. \<open>reach t st\<close>: \<open>st\<close> is reached and the last reading of the
  clock was \<open>t\<close>; each new reading is at least the one before.
\<close>

inductive reach :: "int \<Rightarrow> cache \<Rightarrow> bool" where
  fresh: "CacheManager_new io dir optSize optAge f d = Some st \<Longrightarrow> loadMetadata f = [] \<Longrightarrow>
          reach t st"
| restart: "reach t st \<Longrightarrow>
            CacheManager_new io dir optSize optAge (metadataFile st) (disk st) = Some st' \<Longrightarrow>
            reach t st'"
| put: "reach t st \<Longrightarrow> t \<le> now \<Longrightarrow>
        reach now (snd (cacheVideo io now seriesCode videoId filePath st))"
| get: "reach t st \<Longrightarrow> t \<le> now \<Longrightarrow>
        reach now (snd (getCachedVideo io now seriesCode videoId st))"
| remove: "reach t st \<Longrightarrow> reach t (removeSeries io seriesCode st)"
| evict: "reach t st \<Longrightarrow> t \<le> now \<Longrightarrow> reach now (cleanup io now st)"

subsection \<open>Predicates used in the proofs\<close>

text \<open>
  Every entry was accessed no earlier than it was created and no later than
  \<open>t\<close>; the same for the index that \<^verbatim>\<open>metadata.json\<close> would load.
\<close>

definition stamped :: "int \<Rightarrow> CacheMetadata \<Rightarrow> bool" where
  "stamped t m = (\<forall>(c, s) \<in> set m. createdAt s \<le> lastAccessAt s \<and> lastAccessAt s \<le> t)"

definition stamped_state :: "int \<Rightarrow> cache \<Rightarrow> bool" where
  "stamped_state t st = (stamped t (metadata st) \<and> stamped t (loadMetadata (metadataFile st)))"

text \<open>A step of the handler that leaves \<^verbatim>\<open>activeRequests\<close> alone.\<close>

definition keeps_locks :: "(handler \<Rightarrow> outcome \<times> handler) \<Rightarrow> bool" where
  "keeps_locks f =
     (\<forall>h. activeRequests (snd (f h)) = activeRequests h \<and> lockLog (snd (f h)) = lockLog h)"

text \<open>
  The way through the try block that ends at the \<^verbatim>\<open>return\<close> of the empty
  video list: the group is configured, the first reply is sent, the service
  returns no video, and the reply about it is sent.
\<close>

definition early_return :: "(string \<times> string) list \<Rightarrow> env \<Rightarrow> string \<Rightarrow> string \<Rightarrow> bool" where
  "early_return mapping E c chatId =
     (case getTelegramGroup mapping c of
        None \<Rightarrow> False
      | Some g \<Rightarrow>
          \<not> deliver_throws E chatId (FoundSeries c) \<and>
          fetchVideosFromGroup E g = Some [] \<and>
          \<not> deliver_throws E chatId NoVideos)"

text \<open>A key is held exactly when one call for it is at work.\<close>

definition lock_inv :: "system \<Rightarrow> bool" where
  "lock_inv s = (\<forall>k. in_flight s k = (if locks s k = None then 0 else 1))"

subsection \<open>Values for the examples\<close>

definition no_faults :: faults where
  "no_faults = \<lparr>mkdir_throws = False, copy_throws = False, stat_throws = False,
                write_throws = False, rm_throws = (\<lambda>p. False)\<rparr>"

definition rm_fails :: faults where
  "rm_fails = no_faults\<lparr>rm_throws := (\<lambda>p. True)\<rparr>"

definition copy_fails :: faults where
  "copy_fails = no_faults\<lparr>copy_throws := True\<rparr>"

definition write_fails :: faults where
  "write_fails = no_faults\<lparr>write_throws := True\<rparr>"

text \<open>One series, created at 0 and last read at 9, with one video of 4 bytes.\<close>

definition example_series :: SeriesMetadata where
  "example_series = \<lparr>createdAt = 0, lastAccessAt = 9, accessCount = 3,
                      videos = [(''1'', \<lparr>size_bytes = 4, cachedAt = 0\<rparr>)]\<rparr>"

definition example_cache :: cache where
  "example_cache =
     \<lparr>cacheDir = ''./temp/cache'', maxCacheSize = 10, maxAge = 5,
      metadata = [(''AB001'', example_series)],
      metadataFile = Saved [(''AB001'', example_series)],
      disk = [(''./temp/cache'', Dir), (''./temp/cache/AB001'', Dir),
              (''./temp/cache/AB001/1.mp4'', File 4), (''./temp/2.mp4'', File 7)]\<rparr>"

text \<open>
  The same files under an index that was loaded as empty, as happens after
  \<^verbatim>\<open>metadata.json\<close> was found unparseable.
\<close>

definition orphan_cache :: cache where
  "orphan_cache = example_cache\<lparr>metadata := [], metadataFile := Unparseable\<rparr>"

text \<open>
  Two series of 6 bytes each, read last at the same instant; AB002 was indexed
  before AB001. The limit is 10 bytes.
\<close>

definition tie_series :: SeriesMetadata where
  "tie_series = \<lparr>createdAt = 1, lastAccessAt = 5, accessCount = 1,
                  videos = [(''1'', \<lparr>size_bytes = 6, cachedAt = 1\<rparr>)]\<rparr>"

definition tie_cache :: cache where
  "tie_cache =
     \<lparr>cacheDir = ''./temp/cache'', maxCacheSize = 10, maxAge = 100,
      metadata = [(''AB002'', tie_series), (''AB001'', tie_series)],
      metadataFile = Saved [(''AB002'', tie_series), (''AB001'', tie_series)],
      disk = [(''./temp/cache'', Dir), (''./temp/cache/AB002'', Dir),
              (''./temp/cache/AB002/1.mp4'', File 6), (''./temp/cache/AB001'', Dir),
              (''./temp/cache/AB001/1.mp4'', File 6)]\<rparr>"

text \<open>
  The scenario of three inserts: a limit of 10 MB, and a video of 4 MB cached
  for each of three series at the times 1, 2 and 3.
\<close>

definition scenario_start :: cache where
  "scenario_start =
     \<lparr>cacheDir = ''./temp/cache'', maxCacheSize = 10485760, maxAge = 604800000,
      metadata = [], metadataFile = Missing,
      disk = [(''./temp/a.mp4'', File 4194304), (''./temp/cache'', Dir)]\<rparr>"

definition scenario_end :: cache where
  "scenario_end =
     snd (cacheVideo no_faults 3 ''AA003'' ''1'' ''./temp/a.mp4''
       (snd (cacheVideo no_faults 2 ''AA002'' ''1'' ''./temp/a.mp4''
         (snd (cacheVideo no_faults 1 ''AA001'' ''1'' ''./temp/a.mp4'' scenario_start)))))"

text \<open>The bundle's manager before the same three inserts, and before an insert and a read.\<close>

definition bundle_start :: bundle_cache where
  "bundle_start =
     \<lparr>cacheDir_b = ''./temp/cache'', maxCacheSize_b = 10485760, maxAge_b = 100,
      metadataFile_b = Missing,
      disk_b = [(''./temp/a.mp4'', File 4194304), (''./temp/cache'', Dir)]\<rparr>"

text \<open>The bundle's manager after a video was cached at the time 0 and read at 100.\<close>

definition bundle_read :: bundle_cache where
  "bundle_read =
     snd (getCachedVideo_b no_faults 100 ''AA001'' ''1''
       (cacheVideo_b no_faults 0 ''AA001'' ''1'' ''./temp/a.mp4'' bundle_start))"

text \<open>
  A manager that starts without an index file, the same after it cached a
  video, and after it then read that video.
\<close>

definition started_cache :: cache where
  "started_cache =
     \<lparr>cacheDir = ''./temp/cache'', maxCacheSize = 1073741824, maxAge = 604800000,
      metadata = [], metadataFile = Missing,
      disk = [(''./temp/a.mp4'', File 4194304), (''./temp/cache'', Dir)]\<rparr>"

definition stored_cache :: cache where
  "stored_cache = snd (cacheVideo no_faults 5 ''AB001'' ''1'' ''./temp/a.mp4'' started_cache)"

definition touched_cache :: cache where
  "touched_cache =
     snd (getCachedVideo no_faults 9 ''AB001'' ''1''
       (snd (cacheVideo no_faults 5 ''AB001'' ''1'' ''./temp/a.mp4'' started_cache)))"

text \<open>
  Collaborators that never fail: the group of AB001 holds one video, every
  other group none.
\<close>

definition example_env :: env where
  "example_env =
     \<lparr>deliver_throws = (\<lambda>chatId m. False),
      fetchVideosFromGroup =
        (\<lambda>g. if g = ''wbsd06'' then Some [\<lparr>id_v = 1, caption = ''one''\<rparr>] else Some []),
      downloadVideo = (\<lambda>v. Some (''./temp/1.mp4'', 4)),
      media_throws = (\<lambda>p. False),
      unlink_throws = (\<lambda>p. False),
      cleanTemp_throws = False,
      db_throws = False,
      cache_faults = no_faults,
      clock = (\<lambda>i. 10)\<rparr>"

definition idle_handler :: handler where
  "idle_handler =
     \<lparr>activeRequests = (\<lambda>k. None), cacheManager = example_cache, outbox = [],
      userRequests = [], lockLog = []\<rparr>"

definition busy_handler :: handler where
  "busy_handler = idle_handler\<lparr>activeRequests := (\<lambda>k. None)(''u1'' \<mapsto> ''AB001'')\<rparr>"

definition two_requests :: system where
  "two_requests =
     request seriesMapping ''ab002'' ''u1''
       (request seriesMapping ''ab001'' ''u1'' \<lparr>locks = (\<lambda>k. None), running = {#}\<rparr>)"

section \<open>Theorems\<close>

section \<open>Frame facts\<close>

lemma saveMetadata_frame [simp]:
  "metadata (saveMetadata io st) = metadata st"
  "disk (saveMetadata io st) = disk st"
  "cacheDir (saveMetadata io st) = cacheDir st"
  "maxAge (saveMetadata io st) = maxAge st"
  "maxCacheSize (saveMetadata io st) = maxCacheSize st"
  by (simp_all add: saveMetadata_def)

lemma copyFileSync_Some:
  "copyFileSync io src dst d = Some d' \<Longrightarrow>
     \<not> copy_throws io \<and> (\<exists>n. map_of d src = Some (File n))"
  by (auto simp: copyFileSync_def split: option.splits node.splits if_splits)

lemma mkdirSync_File:
  "map_of (mkdirSync p d) q = Some (File n) \<Longrightarrow> map_of d q = Some (File n)"
  by (auto simp: mkdirSync_def update_conv' split: if_splits)

lemma set_update_subset: "set (AList.update k v al) \<subseteq> insert (k, v) (set al)"
  by (induction al) auto

lemma set_delete_subset: "set (AList.delete k al) \<subseteq> set al"
  by (auto simp: AList.delete_eq)

lemma map_of_delete_None: "map_of al c = None \<Longrightarrow> map_of (AList.delete k al) c = None"
  by (simp add: delete_conv')

lemma map_of_in_keys: "map_of al c = Some s \<Longrightarrow> c \<in> set (map fst al)"
  by (metis map_of_eq_None_iff option.distinct(1) set_map)

section \<open>Inserting: the ways through \<^verbatim>\<open>cacheVideo\<close>\<close>

text \<open>
  Either the call returns null and leaves the index and its file alone, or the
  copy succeeded and the index is the old one with the video upserted.
\<close>

lemma cacheVideo_outcome:
  fixes io now seriesCode videoId filePath st
  defines "r \<equiv> cacheVideo io now seriesCode videoId filePath st"
  shows "(fst r = None \<and> metadata (snd r) = metadata st \<and> metadataFile (snd r) = metadataFile st \<and>
          cacheDir (snd r) = cacheDir st \<and> maxAge (snd r) = maxAge st \<and>
          maxCacheSize (snd r) = maxCacheSize st) \<or>
         (\<exists>d2 fileSize.
            \<not> copy_throws io \<and> (\<exists>n. map_of (disk st) filePath = Some (File n)) \<and>
            r = (Some (getVideoPath st seriesCode videoId),
                 saveMetadata io
                   (st\<lparr>disk := d2,
                       metadata := indexVideo now seriesCode videoId fileSize (metadata st)\<rparr>)))"
proof -
  define c where
    "c \<longleftrightarrow> \<not> existsSync (disk st) (getSeriesDir st seriesCode) \<and> mkdir_throws io"
  define st1 where
    "st1 = (if \<not> existsSync (disk st) (getSeriesDir st seriesCode)
            then st\<lparr>disk := mkdirSync (getSeriesDir st seriesCode) (disk st)\<rparr> else st)"
  define tp where "tp = getVideoPath st seriesCode videoId"
  have r: "r = (if c then (None, st)
                else case copyFileSync io filePath tp (disk st1) of
                  None \<Rightarrow> (None, st1)
                | Some d2 \<Rightarrow>
                    (case statSync_size io d2 tp of
                       None \<Rightarrow> (None, st1\<lparr>disk := d2\<rparr>)
                     | Some fileSize \<Rightarrow>
                         (Some tp, saveMetadata io
                            (st1\<lparr>disk := d2,
                                 metadata :=
                                   indexVideo now seriesCode videoId fileSize (metadata st1)\<rparr>))))"
    unfolding r_def cacheVideo_def Let_def c_def st1_def tp_def by (rule refl)
  have st1: "metadata st1 = metadata st" "metadataFile st1 = metadataFile st"
    "cacheDir st1 = cacheDir st" "maxAge st1 = maxAge st" "maxCacheSize st1 = maxCacheSize st"
    by (simp_all add: st1_def)
  have d1: "map_of (disk st1) filePath = Some (File n) \<Longrightarrow>
            map_of (disk st) filePath = Some (File n)" for n
    by (cases "existsSync (disk st) (getSeriesDir st seriesCode)")
       (auto simp: st1_def dest: mkdirSync_File)
  have upd: "st1\<lparr>disk := d2, metadata := m\<rparr> = st\<lparr>disk := d2, metadata := m\<rparr>" for d2 m
    by (simp add: st1_def)
  show ?thesis
  proof (cases c)
    case True
    then show ?thesis by (simp add: r)
  next
    case nc: False
    show ?thesis
    proof (cases "copyFileSync io filePath tp (disk st1)")
      case None
      with nc st1 show ?thesis by (simp add: r)
    next
      case (Some d2)
      note cp = copyFileSync_Some [OF Some]
      show ?thesis
      proof (cases "statSync_size io d2 tp")
        case None
        with nc Some st1 show ?thesis by (simp add: r)
      next
        case (Some fileSize)
        have e: "r = (Some (getVideoPath st seriesCode videoId), saveMetadata io
                 (st\<lparr>disk := d2,
                     metadata := indexVideo now seriesCode videoId fileSize (metadata st)\<rparr>))"
          using nc \<open>copyFileSync io filePath tp (disk st1) = Some d2\<close> Some
          by (simp add: r tp_def upd st1)
        have f: "\<exists>n. map_of (disk st) filePath = Some (File n)"
          using cp d1 by blast
        have g: "\<not> copy_throws io"
          using cp by simp
        show ?thesis
          apply (rule disjI2)
          apply (rule exI [of _ d2])
          apply (rule exI [of _ fileSize])
          using e f g apply blast
          done
      qed
    qed
  qed
qed

text \<open>
  C6: a \<^verbatim>\<open>cacheVideo\<close> whose copy fails (the source is not a file, or
  \<^verbatim>\<open>copyFileSync\<close> throws) returns null, the failure value of the function, and
  neither the index in memory nor \<^verbatim>\<open>metadata.json\<close> changes. Conversely, when
  either of them changed, the copy had succeeded and the path was returned.
\<close>

theorem cacheVideo_storage_error:
  "(copy_throws io \<or> (\<forall>n. map_of (disk st) filePath \<noteq> Some (File n)) \<longrightarrow>
      fst (cacheVideo io now seriesCode videoId filePath st) = None \<and>
      metadata (snd (cacheVideo io now seriesCode videoId filePath st)) = metadata st \<and>
      metadataFile (snd (cacheVideo io now seriesCode videoId filePath st)) = metadataFile st) \<and>
   (metadata (snd (cacheVideo io now seriesCode videoId filePath st)) \<noteq> metadata st \<or>
    metadataFile (snd (cacheVideo io now seriesCode videoId filePath st)) \<noteq> metadataFile st \<longrightarrow>
      \<not> copy_throws io \<and> (\<exists>n. map_of (disk st) filePath = Some (File n)) \<and>
      fst (cacheVideo io now seriesCode videoId filePath st) =
        Some (getVideoPath st seriesCode videoId))"
  using cacheVideo_outcome [of io now seriesCode videoId filePath st]
  by auto

theorem cacheVideo_storage_error_witness:
  "(\<forall>n. map_of (disk example_cache) ''./temp/9.mp4'' \<noteq> Some (File n)) \<and>
   fst (cacheVideo no_faults 10 ''AB001'' ''9'' ''./temp/9.mp4'' example_cache) = None \<and>
   metadata (snd (cacheVideo no_faults 10 ''AB001'' ''9'' ''./temp/9.mp4'' example_cache)) =
     metadata example_cache \<and>
   copy_throws copy_fails \<and>
   fst (cacheVideo copy_fails 10 ''AB001'' ''2'' ''./temp/2.mp4'' example_cache) = None \<and>
   metadataFile (snd (cacheVideo copy_fails 10 ''AB001'' ''2'' ''./temp/2.mp4'' example_cache)) =
     metadataFile example_cache"
proof -
  have missing: "\<forall>n. map_of (disk example_cache) ''./temp/9.mp4'' \<noteq> Some (File n)"
    by (simp add: example_cache_def)
  have throws: "copy_throws copy_fails"
    by (simp add: copy_fails_def)
  show ?thesis
    using missing throws
      cacheVideo_storage_error [of no_faults example_cache "''./temp/9.mp4''" 10 "''AB001''" "''9''"]
      cacheVideo_storage_error [of copy_fails example_cache "''./temp/2.mp4''" 10 "''AB001''" "''2''"]
    by blast
qed

section \<open>Removal and the two eviction loops\<close>

lemma removeSeries_frame [simp]:
  "cacheDir (removeSeries io c st) = cacheDir st"
  "maxAge (removeSeries io c st) = maxAge st"
  "maxCacheSize (removeSeries io c st) = maxCacheSize st"
  by (simp_all add: removeSeries_def Let_def)

lemma getSeriesDir_removeSeries [simp]:
  "getSeriesDir (removeSeries io c st) k = getSeriesDir st k"
  by (simp add: getSeriesDir_def)

lemma removeSeries_metadata:
  "metadata (removeSeries io c st) =
     (if existsSync (disk st) (getSeriesDir st c) \<and> rm_throws io (getSeriesDir st c)
      then metadata st else AList.delete c (metadata st))"
  by (simp add: removeSeries_def Let_def)

lemma removeSeries_subset: "set (metadata (removeSeries io c st)) \<subseteq> set (metadata st)"
  using set_delete_subset [of c "metadata st"] by (auto simp: removeSeries_metadata)

lemma removeSeries_file:
  "metadataFile (removeSeries io c st) = metadataFile st \<or>
   metadataFile (removeSeries io c st) = Saved (metadata (removeSeries io c st))"
  by (simp add: removeSeries_def Let_def saveMetadata_def)

lemma removeSeries_keeps_None:
  "map_of (metadata st) k = None \<Longrightarrow> map_of (metadata (removeSeries io c st)) k = None"
  by (simp add: removeSeries_metadata map_of_delete_None)

lemma removeSeries_other:
  "k \<noteq> c \<Longrightarrow> map_of (metadata (removeSeries io c st)) k = map_of (metadata st) k"
  by (simp add: removeSeries_metadata)

lemma cleanOldLoop_frame [simp]:
  "cacheDir (cleanOldLoop io now ks st) = cacheDir st"
  "maxAge (cleanOldLoop io now ks st) = maxAge st"
  "maxCacheSize (cleanOldLoop io now ks st) = maxCacheSize st"
  by (induction ks arbitrary: st; simp split: option.split)+

lemma evictLoop_frame [simp]:
  "cacheDir (evictLoop io es cur st) = cacheDir st"
  "maxAge (evictLoop io es cur st) = maxAge st"
  "maxCacheSize (evictLoop io es cur st) = maxCacheSize st"
  by (induction es arbitrary: st cur; simp)+

section \<open>Loading the index\<close>

text \<open>
  After the constructor no operation reads \<^verbatim>\<open>metadata.json\<close>: from two states
  that differ in the file only, an operation returns the same value and leaves
  states that differ in the file only.
\<close>

lemma same_removeSeries:
  "same_but_file a b \<Longrightarrow> same_but_file (removeSeries io c a) (removeSeries io c b)"
  by (simp add: same_but_file_def removeSeries_def Let_def saveMetadata_def getSeriesDir_def)

lemma same_cleanOldLoop:
  "same_but_file a b \<Longrightarrow> same_but_file (cleanOldLoop io now ks a) (cleanOldLoop io now ks b)"
proof (induction ks arbitrary: a b)
  case Nil
  then show ?case by simp
next
  case (Cons k ks)
  have "same_but_file
          (case map_of (metadata a) k of None \<Rightarrow> a
           | Some series \<Rightarrow> if now - createdAt series > maxAge a then removeSeries io k a else a)
          (case map_of (metadata b) k of None \<Rightarrow> b
           | Some series \<Rightarrow> if now - createdAt series > maxAge b then removeSeries io k b else b)"
    using Cons.prems same_removeSeries [OF Cons.prems, of io k]
    by (simp add: same_but_file_def split: option.split)
  from Cons.IH [OF this] show ?case by simp
qed

lemma same_evictLoop:
  "same_but_file a b \<Longrightarrow> same_but_file (evictLoop io es cur a) (evictLoop io es cur b)"
proof (induction es arbitrary: a b cur)
  case Nil
  then show ?case by simp
next
  case (Cons e es)
  from Cons.prems have m: "maxCacheSize a = maxCacheSize b"
    by (simp add: same_but_file_def)
  show ?case
    using Cons.prems Cons.IH [OF same_removeSeries [OF Cons.prems, of io "code e"]] m
    by simp
qed

lemma same_cleanup:
  assumes "same_but_file a b"
  shows "same_but_file (cleanup io now a) (cleanup io now b)"
proof -
  have 1: "same_but_file (cleanOldEntries io now a) (cleanOldEntries io now b)"
    using same_cleanOldLoop [OF assms, of io now "map fst (metadata a)"] assms
    by (simp add: cleanOldEntries_def same_but_file_def)
  let ?a = "cleanOldEntries io now a"
  let ?b = "cleanOldEntries io now b"
  from 1 have e: "getCacheStats ?a = getCacheStats ?b" "seriesList ?a = seriesList ?b"
      "maxCacheSize ?a = maxCacheSize ?b"
    by (simp_all add: same_but_file_def getCacheStats_def seriesList_def)
  show ?thesis
    using 1 same_evictLoop [OF 1, of io "seriesList ?a" "totalSize (getCacheStats ?a)"] e
    by (simp add: cleanup_def cleanBySize_def Let_def)
qed

lemma same_getCachedVideo:
  assumes "same_but_file a b"
  shows "fst (getCachedVideo io now c v a) = fst (getCachedVideo io now c v b) \<and>
         same_but_file (snd (getCachedVideo io now c v a)) (snd (getCachedVideo io now c v b))"
  using assms
  by (simp add: same_but_file_def getCachedVideo_def Let_def getVideoPath_def getSeriesDir_def
      updateAccessTime_def saveMetadata_def split: option.split)

lemma same_cacheVideo:
  assumes "same_but_file a b"
  shows "fst (cacheVideo io now c v p a) = fst (cacheVideo io now c v p b) \<and>
         same_but_file (snd (cacheVideo io now c v p a)) (snd (cacheVideo io now c v p b))"
  using assms
  by (simp add: same_but_file_def cacheVideo_def Let_def getVideoPath_def getSeriesDir_def
      saveMetadata_def split: option.split)

lemma same_apply_op:
  assumes "same_but_file a b"
  shows "fst (apply_op x a) = fst (apply_op x b) \<and>
         same_but_file (snd (apply_op x a)) (snd (apply_op x b))"
  using same_cacheVideo [OF assms] same_getCachedVideo [OF assms] same_removeSeries [OF assms]
    same_cleanup [OF assms]
  by (cases x) simp_all

lemma same_run_ops:
  "same_but_file a b \<Longrightarrow>
   fst (run_ops xs a) = fst (run_ops xs b) \<and>
   same_but_file (snd (run_ops xs a)) (snd (run_ops xs b))"
proof (induction xs arbitrary: a b)
  case Nil
  then show ?case by simp
next
  case (Cons x xs)
  note step = same_apply_op [OF Cons.prems, of x]
  from Cons.IH [of "snd (apply_op x a)" "snd (apply_op x b)"] step
  show ?case
    by (simp add: case_prod_unfold Let_def)
qed

text \<open>
  C8: when \<^verbatim>\<open>metadata.json\<close> is missing, cannot be read or cannot be parsed,
  \<^verbatim>\<open>loadMetadata\<close> returns the empty index and the constructor does not fail
  because of it; the manager constructed is the one constructed over a file
  holding the empty index, but for the file itself; and every run of operations
  from it returns what the same run returns from that manager, and leaves the
  same index and the same files.
\<close>

theorem loadMetadata_fail_open:
  assumes "f = Missing \<or> f = Unreadable \<or> f = Unparseable"
  shows "loadMetadata f = [] \<and>
         (\<not> mkdir_throws io \<longrightarrow> CacheManager_new io dir optSize optAge f d \<noteq> None) \<and>
         CacheManager_new io dir optSize optAge f d =
           map_option (\<lambda>st. st\<lparr>metadataFile := f\<rparr>)
             (CacheManager_new io dir optSize optAge (Saved []) d) \<and>
         (\<forall>st st0 xs.
            CacheManager_new io dir optSize optAge f d = Some st \<longrightarrow>
            CacheManager_new io dir optSize optAge (Saved []) d = Some st0 \<longrightarrow>
              fst (run_ops xs st) = fst (run_ops xs st0) \<and>
              same_but_file (snd (run_ops xs st)) (snd (run_ops xs st0)))"
proof -
  from assms have e: "loadMetadata f = ([] :: CacheMetadata)"
    by (auto simp: loadMetadata_def)
  have m: "loadMetadata (Saved []) = ([] :: CacheMetadata)"
    by (simp add: loadMetadata_def)
  have c: "CacheManager_new io dir optSize optAge f d =
           map_option (\<lambda>st. st\<lparr>metadataFile := f\<rparr>)
             (CacheManager_new io dir optSize optAge (Saved []) d)"
    using e m by (auto simp: CacheManager_new_def Let_def ensureCacheDir_def)
  have n: "\<not> mkdir_throws io \<longrightarrow> CacheManager_new io dir optSize optAge f d \<noteq> None"
    by (auto simp: CacheManager_new_def Let_def)
  have r: "fst (run_ops xs st) = fst (run_ops xs st0) \<and>
           same_but_file (snd (run_ops xs st)) (snd (run_ops xs st0))"
    if "CacheManager_new io dir optSize optAge f d = Some st"
      and "CacheManager_new io dir optSize optAge (Saved []) d = Some st0" for st st0 xs
  proof -
    from that c have "st = st0\<lparr>metadataFile := f\<rparr>" by simp
    then have "same_but_file st st0" by (simp add: same_but_file_def)
    then show ?thesis by (rule same_run_ops)
  qed
  from e n c r show ?thesis by blast
qed

theorem loadMetadata_fail_open_witness:
  "loadMetadata (Unparseable :: CacheMetadata file_state) = [] \<and>
   CacheManager_new no_faults ''./temp/cache'' None None Unparseable
     [(''./temp/a.mp4'', File 4194304)] = Some (started_cache\<lparr>metadataFile := Unparseable\<rparr>) \<and>
   CacheManager_new no_faults ''./temp/cache'' None None (Saved [])
     [(''./temp/a.mp4'', File 4194304)] = Some (started_cache\<lparr>metadataFile := Saved []\<rparr>) \<and>
   fst (run_ops [Get no_faults 1 ''AB001'' ''1'',
                 Put no_faults 2 ''AB001'' ''1'' ''./temp/a.mp4'',
                 Get no_faults 3 ''AB001'' ''1'', Evict no_faults 4]
          (started_cache\<lparr>metadataFile := Unparseable\<rparr>)) =
   fst (run_ops [Get no_faults 1 ''AB001'' ''1'',
                 Put no_faults 2 ''AB001'' ''1'' ''./temp/a.mp4'',
                 Get no_faults 3 ''AB001'' ''1'', Evict no_faults 4]
          (started_cache\<lparr>metadataFile := Saved []\<rparr>))"
proof -
  have bad: "Unparseable = Missing \<or> Unparseable = Unreadable \<or>
             (Unparseable :: CacheMetadata file_state) = Unparseable"
    by simp
  have a: "CacheManager_new no_faults ''./temp/cache'' None None Unparseable
     [(''./temp/a.mp4'', File 4194304)] = Some (started_cache\<lparr>metadataFile := Unparseable\<rparr>)"
    by code_simp
  have b: "CacheManager_new no_faults ''./temp/cache'' None None (Saved [])
     [(''./temp/a.mp4'', File 4194304)] = Some (started_cache\<lparr>metadataFile := Saved []\<rparr>)"
    by code_simp
  show ?thesis
    using a b
      loadMetadata_fail_open [OF bad, of no_faults "''./temp/cache''" None None
        "[(''./temp/a.mp4'', File 4194304)]"]
    by blast
qed

text \<open>
  C10: for every series code, with or without an index entry or a directory,
  \<^verbatim>\<open>isSeriesCached\<close> of the empty list of ids is true.
\<close>

theorem isSeriesCached_empty: "isSeriesCached st seriesCode [] = True"
  by (simp add: isSeriesCached_def)

theorem isSeriesCached_empty_witness:
  "isSeriesCached orphan_cache ''ZZ999'' [] = True \<and>
   map_of (metadata orphan_cache) ''ZZ999'' = None \<and>
   \<not> existsSync (disk orphan_cache) (getSeriesDir orphan_cache ''ZZ999'')"
proof -
  have "map_of (metadata orphan_cache) ''ZZ999'' = None"
    by (simp add: orphan_cache_def)
  moreover have "\<not> existsSync (disk orphan_cache) (getSeriesDir orphan_cache ''ZZ999'')"
    by code_simp
  ultimately show ?thesis
    using isSeriesCached_empty [of orphan_cache "''ZZ999''"] by blast
qed

section \<open>What eviction removes\<close>

lemma cleanOldLoop_subset: "set (metadata (cleanOldLoop io now ks st)) \<subseteq> set (metadata st)"
proof (induction ks arbitrary: st)
  case Nil
  show ?case by simp
next
  case (Cons k ks)
  show ?case
    using Cons.IH removeSeries_subset [of io k st]
    by (simp split: option.split) blast
qed

lemma cleanOldLoop_keeps_None:
  "map_of (metadata st) c = None \<Longrightarrow> map_of (metadata (cleanOldLoop io now ks st)) c = None"
  by (induction ks arbitrary: st) (simp_all add: removeSeries_keeps_None split: option.split)

text \<open>
  A series that is too old, is among the keys the loop visits, and whose
  directory \<^verbatim>\<open>rmSync\<close> does not throw on, is gone after the loop.
\<close>

lemma cleanOldLoop_removes:
  assumes "c \<in> set ks"
      and "map_of (metadata st) c = Some s"
      and "now - createdAt s > maxAge st"
      and "\<not> rm_throws io (getSeriesDir st c)"
  shows "map_of (metadata (cleanOldLoop io now ks st)) c = None"
  using assms
proof (induction ks arbitrary: st)
  case Nil
  then show ?case by simp
next
  case (Cons k ks)
  show ?case
  proof (cases "k = c")
    case True
    have "map_of (metadata (removeSeries io c st)) c = None"
      using Cons.prems(4) by (simp add: removeSeries_metadata delete_conv')
    then show ?thesis
      using True Cons.prems by (simp add: cleanOldLoop_keeps_None)
  next
    case False
    with Cons.prems(1) have in_ks: "c \<in> set ks" by simp
    let ?st' = "case map_of (metadata st) k of None \<Rightarrow> st
                | Some series \<Rightarrow> if now - createdAt series > maxAge st
                                 then removeSeries io k st else st"
    have a: "map_of (metadata ?st') c = Some s"
      using False Cons.prems(2) by (simp add: removeSeries_other split: option.split)
    have b: "maxAge ?st' = maxAge st" "getSeriesDir ?st' c = getSeriesDir st c"
      by (simp_all split: option.split)
    have "map_of (metadata (cleanOldLoop io now ks ?st')) c = None"
      using Cons.IH [OF in_ks a] b Cons.prems(3,4) by simp
    then show ?thesis by simp
  qed
qed

text \<open>A series that is not too old stays through the age pass.\<close>

lemma cleanOldLoop_keeps:
  assumes "map_of (metadata st) c = Some s"
      and "\<not> now - createdAt s > maxAge st"
  shows "map_of (metadata (cleanOldLoop io now ks st)) c = Some s"
  using assms
proof (induction ks arbitrary: st)
  case Nil
  then show ?case by simp
next
  case (Cons k ks)
  let ?st' = "case map_of (metadata st) k of None \<Rightarrow> st
              | Some series \<Rightarrow> if now - createdAt series > maxAge st
                               then removeSeries io k st else st"
  have a: "map_of (metadata ?st') c = Some s"
  proof (cases "k = c")
    case True
    with Cons.prems show ?thesis by simp
  next
    case False
    with Cons.prems(1) show ?thesis by (simp add: removeSeries_other split: option.split)
  qed
  have b: "maxAge ?st' = maxAge st"
    by (simp split: option.split)
  have "map_of (metadata (cleanOldLoop io now ks ?st')) c = Some s"
    using Cons.IH [OF a] b Cons.prems(2) by simp
  then show ?case by simp
qed

lemma evictLoop_subset: "set (metadata (evictLoop io es cur st)) \<subseteq> set (metadata st)"
proof (induction es arbitrary: st cur)
  case Nil
  show ?case by simp
next
  case (Cons e es)
  show ?case
    using Cons.IH removeSeries_subset [of io "code e" st] by simp blast
qed

lemma evictLoop_keeps_None:
  "map_of (metadata st) c = None \<Longrightarrow> map_of (metadata (evictLoop io es cur st)) c = None"
  by (induction es arbitrary: st cur) (simp_all add: removeSeries_keeps_None)

lemma cleanBySize_keeps_None:
  "map_of (metadata st) c = None \<Longrightarrow> map_of (metadata (cleanBySize io st)) c = None"
  by (simp add: cleanBySize_def Let_def evictLoop_keeps_None)

lemma cleanBySize_subset: "set (metadata (cleanBySize io st)) \<subseteq> set (metadata st)"
  by (simp add: cleanBySize_def Let_def evictLoop_subset)

lemma cleanup_subset: "set (metadata (cleanup io now st)) \<subseteq> set (metadata st)"
  using cleanBySize_subset cleanOldLoop_subset
  unfolding cleanup_def cleanOldEntries_def by blast

text \<open>
  The age pass of the bundle's \<^verbatim>\<open>enforceCache\<close>: a series whose last access is
  too old is removed from the saved index, where neither \<^verbatim>\<open>rmSync\<close> nor the
  write throws, and stays out through the size pass.
\<close>

lemma removeSeries_b_cacheDir: "cacheDir_b (removeSeries_b io k st) = cacheDir_b st"
  by (simp add: removeSeries_b_def Let_def saveMetadata_b_def)

lemma removeSeries_b_maxCacheSize: "maxCacheSize_b (removeSeries_b io k st) = maxCacheSize_b st"
  by (simp add: removeSeries_b_def Let_def saveMetadata_b_def)

lemma removeSeries_b_keeps_None:
  "map_of (loadMetadata (metadataFile_b st)) c = None \<Longrightarrow>
   map_of (loadMetadata (metadataFile_b (removeSeries_b io k st))) c = None"
  by (simp add: removeSeries_b_def Let_def saveMetadata_b_def loadMetadata_def map_of_delete_None)

lemma removeSeries_b_removes:
  "\<not> rm_throws io (path_join (cacheDir_b st) c) \<Longrightarrow> \<not> write_throws io \<Longrightarrow>
   map_of (loadMetadata (metadataFile_b (removeSeries_b io c st))) c = None"
  by (simp add: removeSeries_b_def Let_def saveMetadata_b_def loadMetadata_def delete_conv')

lemma foldl_removeSeries_b_removes:
  assumes "c \<in> set ks \<or> map_of (loadMetadata (metadataFile_b st)) c = None"
      and "\<not> rm_throws io (path_join (cacheDir_b st) c)"
      and "\<not> write_throws io"
  shows "map_of (loadMetadata (metadataFile_b
           (foldl (\<lambda>s k. removeSeries_b io k s) st ks))) c = None"
  using assms
proof (induction ks arbitrary: st)
  case Nil
  then show ?case by simp
next
  case (Cons k ks)
  let ?st = "removeSeries_b io k st"
  have none: "c \<in> set ks \<or> map_of (loadMetadata (metadataFile_b ?st)) c = None"
  proof (cases "k = c")
    case True
    with Cons.prems show ?thesis
      by (simp add: removeSeries_b_removes)
  next
    case False
    with Cons.prems(1) show ?thesis
      by (auto simp: removeSeries_b_keeps_None)
  qed
  have "\<not> rm_throws io (path_join (cacheDir_b ?st) c)"
    using Cons.prems(2) by (simp add: removeSeries_b_cacheDir)
  from Cons.IH [OF none this Cons.prems(3)] show ?case
    by simp
qed

lemma sizeLoop_b_keeps_None:
  "map_of (loadMetadata (metadataFile_b st)) c = None \<Longrightarrow>
   map_of (loadMetadata (metadataFile_b (sizeLoop_b io m ks cur st))) c = None"
  by (induction ks arbitrary: cur st) (simp_all add: Let_def removeSeries_b_keeps_None)

lemma enforceCache_removes:
  assumes "map_of (loadMetadata (metadataFile_b b)) c = Some e"
      and "now - lastAccessed e > maxAge_b b"
      and "\<not> rm_throws io (path_join (cacheDir_b b) c)"
      and "\<not> write_throws io"
  shows "map_of (loadMetadata (metadataFile_b (enforceCache io now b))) c = None"
proof -
  let ?m = "loadMetadata (metadataFile_b b)"
  let ?old = "map fst (filter (\<lambda>(seriesCode, s). now - lastAccessed s > maxAge_b b) ?m)"
  from assms(1) have "(c, e) \<in> set ?m"
    by (rule map_of_SomeD)
  with assms(2) have "c \<in> set ?old"
    by force
  then have "map_of (loadMetadata (metadataFile_b
               (foldl (\<lambda>s k. removeSeries_b io k s) b ?old))) c = None"
    using foldl_removeSeries_b_removes [of c ?old b io] assms(3,4) by blast
  then show ?thesis
    by (simp add: enforceCache_def Let_def sizeLoop_b_keeps_None)
qed

text \<open>
  C3, as amended: for every state of the cache and every \<^verbatim>\<open>cleanup\<close>, a series
  whose age \<open>now - createdAt\<close> exceeds \<^verbatim>\<open>maxAge\<close>, and on whose directory
  \<^verbatim>\<open>rmSync\<close> does not throw, has no index entry afterwards, whatever the size of
  the cache; and the age pass reads the creation time only: a series whose age is
  within \<^verbatim>\<open>maxAge\<close> keeps its entry through \<^verbatim>\<open>cleanOldEntries\<close> whatever its
  \<^verbatim>\<open>lastAccessAt\<close>. The manager of the bundle records no creation time: its
  \<^verbatim>\<open>enforceCache\<close> removes every series whose \<open>now - lastAccessed\<close> exceeds
  \<^verbatim>\<open>maxAge\<close>, where neither \<^verbatim>\<open>rmSync\<close> on its directory nor the write of
  \<^verbatim>\<open>metadata.json\<close> throws.
\<close>

theorem cleanup_removes_old:
  "(map_of (metadata st) c = Some s \<and> \<not> rm_throws io (getSeriesDir st c) \<longrightarrow>
      (now - createdAt s > maxAge st \<longrightarrow> map_of (metadata (cleanup io now st)) c = None) \<and>
      (\<not> now - createdAt s > maxAge st \<longrightarrow>
         map_of (metadata (cleanOldEntries io now st)) c = Some s)) \<and>
   (map_of (loadMetadata (metadataFile_b b)) c = Some e \<and>
    \<not> rm_throws io (path_join (cacheDir_b b) c) \<and> \<not> write_throws io \<and>
    now - lastAccessed e > maxAge_b b \<longrightarrow>
      map_of (loadMetadata (metadataFile_b (enforceCache io now b))) c = None)"
proof (intro conjI impI; (elim conjE)?)
  assume entry: "map_of (metadata st) c = Some s"
    and rm: "\<not> rm_throws io (getSeriesDir st c)"
    and old: "now - createdAt s > maxAge st"
  have "map_of (metadata (cleanOldEntries io now st)) c = None"
    unfolding cleanOldEntries_def
    using cleanOldLoop_removes [OF map_of_in_keys [OF entry] entry old rm] .
  then show "map_of (metadata (cleanup io now st)) c = None"
    by (simp add: cleanup_def cleanBySize_keeps_None)
next
  assume entry: "map_of (metadata st) c = Some s"
    and "\<not> now - createdAt s > maxAge st"
  then show "map_of (metadata (cleanOldEntries io now st)) c = Some s"
    unfolding cleanOldEntries_def using cleanOldLoop_keeps [OF entry] by blast
next
  assume "map_of (loadMetadata (metadataFile_b b)) c = Some e"
    and "\<not> rm_throws io (path_join (cacheDir_b b) c)"
    and "\<not> write_throws io"
    and "now - lastAccessed e > maxAge_b b"
  then show "map_of (loadMetadata (metadataFile_b (enforceCache io now b))) c = None"
    by (simp add: enforceCache_removes)
qed

lemma bundle_read_index:
  "map_of (loadMetadata (metadataFile_b bundle_read)) ''AA001'' =
     Some \<lparr>files = [''1''], lastAccessed = 100, size_b = 4194304\<rparr>"
  by code_simp

theorem cleanup_removes_old_witness:
  "map_of (metadata example_cache) ''AB001'' = Some example_series \<and>
   \<not> rm_throws no_faults (getSeriesDir example_cache ''AB001'') \<and>
   10 - createdAt example_series > maxAge example_cache \<and>
   10 - lastAccessAt example_series \<le> maxAge example_cache \<and>
   totalSize (getCacheStats example_cache) \<le> maxCacheSize example_cache \<and>
   map_of (metadata (cleanup no_faults 10 example_cache)) ''AB001'' = None \<and>
   \<not> 4 - createdAt example_series > maxAge example_cache \<and>
   map_of (metadata (cleanOldEntries no_faults 4 example_cache)) ''AB001'' = Some example_series \<and>
   map_of (loadMetadata (metadataFile_b bundle_read)) ''AA001'' =
     Some \<lparr>files = [''1''], lastAccessed = 100, size_b = 4194304\<rparr> \<and>
   maxAge_b bundle_read = 100 \<and>
   map_of (loadMetadata (metadataFile_b (enforceCache no_faults 201 bundle_read))) ''AA001'' = None"
proof -
  have entry: "map_of (metadata example_cache) ''AB001'' = Some example_series"
    by (simp add: example_cache_def)
  have rm: "\<not> rm_throws no_faults p" "\<not> write_throws no_faults" for p
    by (simp_all add: no_faults_def)
  have old: "10 - createdAt example_series > maxAge example_cache"
    "10 - lastAccessAt example_series \<le> maxAge example_cache"
    "\<not> 4 - createdAt example_series > maxAge example_cache"
    by (simp_all add: example_cache_def example_series_def)
  have small: "totalSize (getCacheStats example_cache) \<le> maxCacheSize example_cache"
    by code_simp
  have age: "maxAge_b bundle_read = 100"
    by code_simp
  have old_b: "201 - lastAccessed \<lparr>files = [''1''], lastAccessed = 100, size_b = 4194304\<rparr>
               > maxAge_b bundle_read"
    by (simp add: age)
  show ?thesis
    using entry rm old small age old_b bundle_read_index
      cleanup_removes_old [of example_cache "''AB001''" example_series no_faults 10]
      cleanup_removes_old [of example_cache "''AB001''" example_series no_faults 4]
      cleanup_removes_old [of example_cache "''AA001''" example_series no_faults 201 bundle_read
        "\<lparr>files = [''1''], lastAccessed = 100, size_b = 4194304\<rparr>"]
    by blast
qed

text \<open>
  C3 as stated fails where \<^verbatim>\<open>rmSync\<close> throws: the series of \<open>example_cache\<close> is
  10 old at the time 10, \<^verbatim>\<open>maxAge\<close> is 5, and after \<^verbatim>\<open>cleanup\<close> its entry is
  still in the index. And it fails for the manager of the bundle, whose age pass
  compares the time of the last access: a series first cached at the time 0 and
  read at 100 is still indexed after \<^verbatim>\<open>enforceCache\<close> at 150, with a
  \<^verbatim>\<open>maxAge\<close> of 100 and no fault.
\<close>

theorem cleanup_removes_old_counterexample:
  "map_of (metadata example_cache) ''AB001'' = Some example_series \<and>
   10 - createdAt example_series > maxAge example_cache \<and>
   map_of (metadata (cleanup rm_fails 10 example_cache)) ''AB001'' = Some example_series \<and>
   maxAge_b bundle_read = 100 \<and>
   loadMetadata (metadataFile_b (enforceCache no_faults 150 bundle_read)) =
     [(''AA001'', \<lparr>files = [''1''], lastAccessed = 100, size_b = 4194304\<rparr>)]"
  by code_simp


text \<open>
  The loop of \<^verbatim>\<open>cleanBySize\<close> calls \<^verbatim>\<open>removeSeries\<close> on a prefix of its list:
  on every element before which the running size was still above 80% of the
  limit, and it stops at the first element before which it is not.
\<close>

lemma evictLoop_prefix:
  "\<exists>n \<le> length es.
     evictLoop io es cur st = foldl (\<lambda>s e. removeSeries io (code e) s) st (take n es) \<and>
     (\<forall>k < n. \<not> 10 * (cur - sum_list (map size_e (take k es))) \<le> 8 * maxCacheSize st) \<and>
     (n < length es \<longrightarrow> 10 * (cur - sum_list (map size_e (take n es))) \<le> 8 * maxCacheSize st)"
proof (induction es arbitrary: cur st)
  case Nil
  show ?case by simp
next
  case (Cons e es)
  show ?case
  proof (cases "10 * cur \<le> 8 * maxCacheSize st")
    case True
    then show ?thesis
      by (intro exI [of _ 0]) simp
  next
    case False
    let ?st = "removeSeries io (code e) st"
    let ?cur = "cur - size_e e"
    from Cons.IH [of ?cur ?st] obtain n where n: "n \<le> length es"
      and run: "evictLoop io es ?cur ?st =
                foldl (\<lambda>s e. removeSeries io (code e) s) ?st (take n es)"
      and over: "\<forall>k < n. \<not> 10 * (?cur - sum_list (map size_e (take k es)))
                           \<le> 8 * maxCacheSize st"
      and stop: "n < length es \<longrightarrow>
                 10 * (?cur - sum_list (map size_e (take n es))) \<le> 8 * maxCacheSize st"
      by auto
    have a: "evictLoop io (e # es) cur st =
             foldl (\<lambda>s e. removeSeries io (code e) s) st (take (Suc n) (e # es))"
      using False run by simp
    have b: "\<not> 10 * (cur - sum_list (map size_e (take k (e # es)))) \<le> 8 * maxCacheSize st"
      if "k < Suc n" for k
    proof (cases k)
      case 0
      with False show ?thesis by simp
    next
      case (Suc j)
      with that have "j < n" by simp
      with over have "\<not> 10 * (?cur - sum_list (map size_e (take j es))) \<le> 8 * maxCacheSize st"
        by blast
      with Suc show ?thesis by (simp add: algebra_simps)
    qed
    have c: "Suc n < length (e # es) \<longrightarrow>
             10 * (cur - sum_list (map size_e (take (Suc n) (e # es)))) \<le> 8 * maxCacheSize st"
      using stop by (simp add: algebra_simps)
    show ?thesis
      using n a b c by (intro exI [of _ "Suc n"]) simp
  qed
qed

text \<open>
  Where no removal throws, the series the loop has passed are gone from the
  index and the others are untouched, so the running size of the loop is the
  total size of what remains. The keys of a JavaScript object are distinct.
\<close>

lemma sum_list_split:
  fixes f :: "'a \<Rightarrow> int"
  shows "sum_list (map f xs) =
         sum_list (map f (filter P xs)) + sum_list (map f (filter (\<lambda>x. \<not> P x) xs))"
  by (induction xs) auto

lemma sum_filter_perm:
  fixes f :: "'a \<Rightarrow> int"
  assumes "mset xs = mset ys"
  shows "sum_list (map f (filter P xs)) = sum_list (map f (filter P ys))"
proof -
  have "mset (filter P xs) = mset (filter P ys)"
    using assms by (simp only: mset_filter)
  then have "mset (map f (filter P xs)) = mset (map f (filter P ys))"
    by (simp only: mset_map)
  then show ?thesis
    by (metis sum_mset_sum_list)
qed

lemma foldl_removeSeries_metadata:
  assumes "\<forall>p. \<not> rm_throws io p"
  shows "metadata (foldl (\<lambda>s e. removeSeries io (code e) s) st es) =
         filter (\<lambda>(k, d). k \<notin> set (map code es)) (metadata st)"
proof (induction es arbitrary: st)
  case Nil
  show ?case by simp
next
  case (Cons e es)
  have "metadata (removeSeries io (code e) st) = AList.delete (code e) (metadata st)"
    using assms by (simp add: removeSeries_def Let_def)
  with Cons.IH [of "removeSeries io (code e) st"] show ?case
    by (auto simp: AList.delete_eq intro!: filter_cong)
qed

lemma remaining_total:
  assumes d: "distinct (map fst (metadata st))"
      and ok: "\<forall>p. \<not> rm_throws io p"
  shows "totalSize (getCacheStats
            (foldl (\<lambda>s e. removeSeries io (code e) s) st (take n (seriesList st)))) =
         totalSize (getCacheStats st) - sum_list (map size_e (take n (seriesList st)))"
proof -
  define summary :: "string \<times> SeriesMetadata \<Rightarrow> entry"
    where "summary = (\<lambda>(c, d). \<lparr>code = c, lastAccessAt_e = lastAccessAt d, size_e = seriesSize d\<rparr>)"
  have cs: "code (summary x) = fst x" "size_e (summary x) = seriesSize (snd x)" for x
    by (simp_all add: summary_def case_prod_unfold)
  let ?E = "map summary (metadata st)"
  let ?L = "seriesList st"
  let ?P = "take n ?L"
  let ?Q = "\<lambda>e. code e \<in> set (map code ?P)"
  have L: "?L = sort_key lastAccessAt_e ?E"
    by (simp add: seriesList_def summary_def)
  have perm: "mset ?L = mset ?E"
    by (simp add: L)
  have "distinct (map code ?E)"
    using d by (simp add: comp_def cs)
  moreover have "mset (map code ?L) = mset (map code ?E)"
    using perm by (simp only: mset_map)
  ultimately have "distinct (map code ?L)"
    by (metis mset_eq_imp_distinct_iff)
  then have "distinct (map code (?P @ drop n ?L))"
    by simp
  then have dl: "set (map code ?P) \<inter> set (map code (drop n ?L)) = {}"
    unfolding map_append distinct_append by blast
  have fp: "filter ?Q ?P = ?P"
    by (simp add: filter_id_conv)
  have fd: "filter ?Q (drop n ?L) = []"
  proof -
    have "\<not> ?Q x" if "x \<in> set (drop n ?L)" for x
    proof
      assume "?Q x"
      moreover have "code x \<in> set (map code (drop n ?L))"
        using that by (simp only: set_map) (rule imageI)
      ultimately show False
        using dl by blast
    qed
    then show ?thesis
      by (simp only: filter_empty_conv) blast
  qed
  have "filter ?Q ?L = filter ?Q (?P @ drop n ?L)"
    by simp
  also have "\<dots> = ?P"
    using fp fd by (simp only: filter_append) simp
  finally have fl: "filter ?Q ?L = ?P" .
  have a: "sum_list (map size_e (filter ?Q ?E)) = sum_list (map size_e ?P)"
    using sum_filter_perm [OF perm, of size_e ?Q] fl by simp
  have b: "metadata (foldl (\<lambda>s e. removeSeries io (code e) s) st ?P) =
           filter (\<lambda>(k, d). k \<notin> set (map code ?P)) (metadata st)"
    by (rule foldl_removeSeries_metadata [OF ok])
  have c: "totalSize (getCacheStats (foldl (\<lambda>s e. removeSeries io (code e) s) st ?P)) =
           sum_list (map size_e (filter (\<lambda>e. \<not> ?Q e) ?E))"
    by (simp add: getCacheStats_def b filter_map comp_def case_prod_unfold cs)
  have t: "totalSize (getCacheStats st) = sum_list (map size_e ?E)"
    by (simp add: getCacheStats_def comp_def case_prod_unfold cs)
  have "totalSize (getCacheStats st) =
        sum_list (map size_e (filter ?Q ?E)) + sum_list (map size_e (filter (\<lambda>e. \<not> ?Q e) ?E))"
    unfolding t by (rule sum_list_split)
  with a c show ?thesis by simp
qed

text \<open>
  C4, as amended: when the total size is within \<^verbatim>\<open>maxCacheSize\<close>,
  \<^verbatim>\<open>cleanBySize\<close> changes nothing. When it exceeds \<^verbatim>\<open>maxCacheSize\<close>, the
  series are listed in ascending order of \<^verbatim>\<open>lastAccessAt\<close>, series with equal
  \<^verbatim>\<open>lastAccessAt\<close> in the order the index holds them (the sort is stable and
  compares nothing else), and \<^verbatim>\<open>removeSeries\<close> is called on the shortest prefix
  of that list after which the running size (the total less the sizes of the
  series the loop has passed) is at most 80% of \<^verbatim>\<open>maxCacheSize\<close>, or on the
  whole list when there is no such prefix. Each call removes a whole series, or
  nothing where \<^verbatim>\<open>rmSync\<close> throws; where no removal throws, the running
  size is the total size of what remains in the index.
\<close>

theorem cleanBySize_lru:
  "(totalSize (getCacheStats st) \<le> maxCacheSize st \<longrightarrow> cleanBySize io st = st) \<and>
   (maxCacheSize st < totalSize (getCacheStats st) \<longrightarrow>
      (\<exists>n \<le> length (seriesList st).
         cleanBySize io st =
           foldl (\<lambda>s e. removeSeries io (code e) s) st (take n (seriesList st)) \<and>
         (\<forall>k < n. \<not> 10 * (totalSize (getCacheStats st)
                            - sum_list (map size_e (take k (seriesList st))))
                      \<le> 8 * maxCacheSize st) \<and>
         (n < length (seriesList st) \<longrightarrow>
            10 * (totalSize (getCacheStats st)
                  - sum_list (map size_e (take n (seriesList st))))
              \<le> 8 * maxCacheSize st) \<and>
         (distinct (map fst (metadata st)) \<and> (\<forall>p. \<not> rm_throws io p) \<longrightarrow>
            totalSize (getCacheStats (cleanBySize io st)) =
              totalSize (getCacheStats st)
              - sum_list (map size_e (take n (seriesList st)))))) \<and>
   sorted (map lastAccessAt_e (seriesList st)) \<and>
   (\<forall>t. map code (filter (\<lambda>e. lastAccessAt_e e = t) (seriesList st)) =
        map fst (filter (\<lambda>(c, d). lastAccessAt d = t) (metadata st)))"
proof (intro conjI impI allI)
  assume "totalSize (getCacheStats st) \<le> maxCacheSize st"
  then show "cleanBySize io st = st"
    by (simp add: cleanBySize_def Let_def)
next
  let ?L = "seriesList st" and ?T = "totalSize (getCacheStats st)"
  assume "maxCacheSize st < totalSize (getCacheStats st)"
  then have run: "cleanBySize io st = evictLoop io ?L ?T st"
    by (simp add: cleanBySize_def Let_def)
  from evictLoop_prefix [of ?L io ?T st] obtain n where n: "n \<le> length ?L"
    and eq: "evictLoop io ?L ?T st = foldl (\<lambda>s e. removeSeries io (code e) s) st (take n ?L)"
    and over: "\<forall>k < n. \<not> 10 * (?T - sum_list (map size_e (take k ?L))) \<le> 8 * maxCacheSize st"
    and stop: "n < length ?L \<longrightarrow>
               10 * (?T - sum_list (map size_e (take n ?L))) \<le> 8 * maxCacheSize st"
    by auto
  have left: "distinct (map fst (metadata st)) \<and> (\<forall>p. \<not> rm_throws io p) \<longrightarrow>
              totalSize (getCacheStats (cleanBySize io st)) =
                ?T - sum_list (map size_e (take n ?L))"
    unfolding run eq using remaining_total [of st io n] by blast
  show "\<exists>n \<le> length (seriesList st).
         cleanBySize io st =
           foldl (\<lambda>s e. removeSeries io (code e) s) st (take n (seriesList st)) \<and>
         (\<forall>k < n. \<not> 10 * (totalSize (getCacheStats st)
                            - sum_list (map size_e (take k (seriesList st))))
                      \<le> 8 * maxCacheSize st) \<and>
         (n < length (seriesList st) \<longrightarrow>
            10 * (totalSize (getCacheStats st)
                  - sum_list (map size_e (take n (seriesList st))))
              \<le> 8 * maxCacheSize st) \<and>
         (distinct (map fst (metadata st)) \<and> (\<forall>p. \<not> rm_throws io p) \<longrightarrow>
            totalSize (getCacheStats (cleanBySize io st)) =
              totalSize (getCacheStats st)
              - sum_list (map size_e (take n (seriesList st))))"
    using n run eq over stop left by (intro exI [of _ n]) simp
next
  show "sorted (map lastAccessAt_e (seriesList st))"
    by (simp add: seriesList_def)
next
  fix t
  show "map code (filter (\<lambda>e. lastAccessAt_e e = t) (seriesList st)) =
        map fst (filter (\<lambda>(c, d). lastAccessAt d = t) (metadata st))"
    unfolding seriesList_def
    by (simp add: sort_key_stable filter_map comp_def case_prod_unfold)
qed

theorem cleanBySize_lru_witness:
  "maxCacheSize tie_cache < totalSize (getCacheStats tie_cache) \<and>
   distinct (map fst (metadata tie_cache)) \<and> (\<forall>p. \<not> rm_throws no_faults p) \<and>
   (\<exists>n \<le> length (seriesList tie_cache).
      cleanBySize no_faults tie_cache =
        foldl (\<lambda>s e. removeSeries no_faults (code e) s) tie_cache (take n (seriesList tie_cache)) \<and>
      (\<forall>k < n. \<not> 10 * (totalSize (getCacheStats tie_cache)
                         - sum_list (map size_e (take k (seriesList tie_cache))))
                   \<le> 8 * maxCacheSize tie_cache) \<and>
      (n < length (seriesList tie_cache) \<longrightarrow>
         10 * (totalSize (getCacheStats tie_cache)
               - sum_list (map size_e (take n (seriesList tie_cache))))
           \<le> 8 * maxCacheSize tie_cache) \<and>
      totalSize (getCacheStats (cleanBySize no_faults tie_cache)) =
        totalSize (getCacheStats tie_cache)
        - sum_list (map size_e (take n (seriesList tie_cache)))) \<and>
   totalSize (getCacheStats example_cache) \<le> maxCacheSize example_cache \<and>
   cleanBySize no_faults example_cache = example_cache"
proof -
  have over: "maxCacheSize tie_cache < totalSize (getCacheStats tie_cache)"
    by code_simp
  have within: "totalSize (getCacheStats example_cache) \<le> maxCacheSize example_cache"
    by code_simp
  have d: "distinct (map fst (metadata tie_cache))"
    by code_simp
  have ok: "\<forall>p. \<not> rm_throws no_faults p"
    by (simp add: no_faults_def)
  show ?thesis
    using over within d ok cleanBySize_lru [of tie_cache no_faults]
      cleanBySize_lru [of example_cache no_faults]
    by blast
qed


text \<open>
  C4 as stated fails on ties: in \<open>tie_cache\<close> the two series were read last at
  the same instant and the total of 12 exceeds the limit of 10; the series
  evicted is AB002, the one the index holds first, and AB001, which comes first
  by its id, is kept. And where \<^verbatim>\<open>rmSync\<close> throws, nothing is removed.
\<close>

theorem cleanBySize_lru_counterexample:
  "map (\<lambda>(c, s). (c, lastAccessAt s)) (metadata tie_cache) = [(''AB002'', 5), (''AB001'', 5)] \<and>
   totalSize (getCacheStats tie_cache) = 12 \<and> maxCacheSize tie_cache = 10 \<and>
   map fst (metadata (cleanBySize no_faults tie_cache)) = [''AB001''] \<and>
   map fst (metadata (cleanBySize rm_fails tie_cache)) = [''AB002'', ''AB001'']"
  by code_simp

section \<open>Inserting does not evict\<close>

text \<open>
  C5: \<^verbatim>\<open>cacheVideo\<close> of the cache manager returns after \<^verbatim>\<open>saveMetadata\<close>; it
  does not call \<^verbatim>\<open>cleanup\<close>. In the scenario of three inserts of 4 MB under a
  limit of 10 MB, all three series are in the index after the third insert, 12 MB
  in all, where an eviction pass at that moment would have removed the first.
\<close>

theorem cacheVideo_no_eviction:
  "map fst (metadata scenario_end) = [''AA001'', ''AA002'', ''AA003''] \<and>
   totalSize (getCacheStats scenario_end) = 12582912 \<and>
   maxCacheSize scenario_end = 10485760 \<and>
   map fst (metadata (cleanup no_faults 3 scenario_end)) = [''AA002'', ''AA003'']"
  by code_simp

text \<open>
  In general: a successful \<^verbatim>\<open>cacheVideo\<close> leaves in the index every series
  that was there, whatever the sizes.
\<close>

lemma indexVideo_keys: "fst ` set (indexVideo now c v n m) = insert c (fst ` set m)"
  unfolding indexVideo_def Let_def by (simp add: dom_update)

lemma cacheVideo_keeps_keys:
  "fst ` set (metadata st) \<subseteq> fst ` set (metadata (snd (cacheVideo io now c v p st)))"
proof -
  from cacheVideo_outcome [of io now c v p st]
  have "metadata (snd (cacheVideo io now c v p st)) = metadata st \<or>
        (\<exists>n. metadata (snd (cacheVideo io now c v p st)) = indexVideo now c v n (metadata st))"
    by auto
  then show ?thesis
  proof
    assume "metadata (snd (cacheVideo io now c v p st)) = metadata st"
    then show ?thesis by simp
  next
    assume "\<exists>n. metadata (snd (cacheVideo io now c v p st)) =
                indexVideo now c v n (metadata st)"
    then obtain n where
      "metadata (snd (cacheVideo io now c v p st)) = indexVideo now c v n (metadata st)" ..
    then show ?thesis
      by (simp add: indexVideo_keys subset_insertI)
  qed
qed

text \<open>
  The manager of the bundle does evict on insert: in the same scenario its index
  holds the second and the third series after the third \<^verbatim>\<open>cacheVideo\<close>.
\<close>

lemma bundle_evicts_on_insert:
  "map fst (loadMetadata (metadataFile_b
     (cacheVideo_b no_faults 3 ''AA003'' ''1'' ''./temp/a.mp4''
       (cacheVideo_b no_faults 2 ''AA002'' ''1'' ''./temp/a.mp4''
         (cacheVideo_b no_faults 1 ''AA001'' ''1'' ''./temp/a.mp4'' bundle_start))))) =
     [''AA002'', ''AA003'']"
  by code_simp

text \<open>
  Its age pass removes by the time of the last access: the series cached at 0
  and read at 100 is kept at 150 and removed at 201, \<^verbatim>\<open>maxAge\<close> being 100.
\<close>

lemma bundle_ages_by_last_access:
  "map fst (loadMetadata (metadataFile_b
     (enforceCache no_faults 150
       (snd (getCachedVideo_b no_faults 100 ''AA001'' ''1''
         (cacheVideo_b no_faults 0 ''AA001'' ''1'' ''./temp/a.mp4'' bundle_start)))))) =
     [''AA001''] \<and>
   map fst (loadMetadata (metadataFile_b
     (enforceCache no_faults 201
       (snd (getCachedVideo_b no_faults 100 ''AA001'' ''1''
         (cacheVideo_b no_faults 0 ''AA001'' ''1'' ''./temp/a.mp4'' bundle_start)))))) = []"
  by code_simp

text \<open>
  And its \<^verbatim>\<open>isSeriesCached\<close> is false for a series without an index entry,
  whatever the list of ids, the empty list included.
\<close>

lemma bundle_isSeriesCached_no_entry:
  "map_of (loadMetadata (metadataFile_b st)) seriesCode = None \<Longrightarrow>
   \<not> isSeriesCached_b st seriesCode videoIds"
  by (simp add: isSeriesCached_b_def)

section \<open>Access times\<close>

lemma stamped_mono: "stamped t m \<Longrightarrow> t \<le> t' \<Longrightarrow> stamped t' m"
  by (fastforce simp: stamped_def)

lemma stamped_subset: "stamped t m \<Longrightarrow> set m' \<subseteq> set m \<Longrightarrow> stamped t m'"
  by (auto simp: stamped_def)

lemma stamped_Nil [simp]: "stamped t []"
  by (simp add: stamped_def)

lemma stamped_update:
  assumes "stamped t m" and "createdAt s \<le> lastAccessAt s" and "lastAccessAt s \<le> t"
  shows "stamped t (AList.update k s m)"
  using assms set_update_subset [of k s m] by (auto simp: stamped_def)

lemma stamped_indexVideo:
  assumes "stamped t m" and "t \<le> now"
  shows "stamped now (indexVideo now c v n m)"
proof -
  have m: "stamped now m" using assms by (rule stamped_mono)
  show ?thesis
  proof (cases "map_of m c")
    case None
    then show ?thesis
      unfolding indexVideo_def Let_def
      by (simp add: stamped_update [OF m])
  next
    case (Some s)
    then have "(c, s) \<in> set m" by (rule map_of_SomeD)
    with assms have "createdAt s \<le> now" by (auto simp: stamped_def)
    with Some show ?thesis
      unfolding indexVideo_def Let_def
      by (simp add: stamped_update [OF m])
  qed
qed

lemma stamped_saveMetadata:
  "stamped t (metadata st) \<Longrightarrow> stamped t (loadMetadata (metadataFile st)) \<Longrightarrow>
   stamped_state t (saveMetadata io st)"
  by (simp add: stamped_state_def saveMetadata_def loadMetadata_def)

lemma stamped_state_mono: "stamped_state t st \<Longrightarrow> t \<le> t' \<Longrightarrow> stamped_state t' st"
  by (auto simp: stamped_state_def intro: stamped_mono)

text \<open>Each operation keeps the inequality, the clock not going back.\<close>

lemma stamped_cacheVideo:
  assumes "stamped_state t st" and "t \<le> now"
  shows "stamped_state now (snd (cacheVideo io now c v p st))"
proof -
  from assms have now: "stamped now (metadata st)" "stamped now (loadMetadata (metadataFile st))"
    by (auto simp: stamped_state_def intro: stamped_mono)
  from cacheVideo_outcome [of io now c v p st] show ?thesis
  proof (elim disjE exE conjE)
    assume "metadata (snd (cacheVideo io now c v p st)) = metadata st"
      "metadataFile (snd (cacheVideo io now c v p st)) = metadataFile st"
    with now show ?thesis by (simp add: stamped_state_def)
  next
    fix d2 fileSize
    assume r: "cacheVideo io now c v p st =
          (Some (getVideoPath st c v),
           saveMetadata io
             (st\<lparr>disk := d2, metadata := indexVideo now c v fileSize (metadata st)\<rparr>))"
    have "stamped now (indexVideo now c v fileSize (metadata st))"
      using assms by (auto simp: stamped_state_def intro: stamped_indexVideo)
    then show ?thesis
      using r now by (simp add: stamped_saveMetadata)
  qed
qed

lemma stamped_updateAccessTime:
  assumes "stamped_state t st" and "t \<le> now"
  shows "stamped_state now (updateAccessTime io now c v st)"
proof -
  from assms have now: "stamped now (metadata st)" "stamped now (loadMetadata (metadataFile st))"
    by (auto simp: stamped_state_def intro: stamped_mono)
  show ?thesis
  proof (cases "map_of (metadata st) c")
    case None
    with now show ?thesis by (simp add: updateAccessTime_def stamped_state_def)
  next
    case (Some s)
    then have "(c, s) \<in> set (metadata st)" by (rule map_of_SomeD)
    with assms have "createdAt s \<le> now" by (auto simp: stamped_state_def stamped_def)
    then have "stamped now
        (AList.update c (s\<lparr>lastAccessAt := now, accessCount := accessCount s + 1\<rparr>) (metadata st))"
      by (simp add: stamped_update [OF now(1)])
    with Some now show ?thesis
      by (simp add: updateAccessTime_def stamped_saveMetadata)
  qed
qed

lemma stamped_getCachedVideo:
  assumes "stamped_state t st" and "t \<le> now"
  shows "stamped_state now (snd (getCachedVideo io now c v st))"
  using stamped_updateAccessTime [OF assms] assms
  by (auto simp: getCachedVideo_def Let_def stamped_state_def intro: stamped_mono)

lemma stamped_removeSeries:
  assumes "stamped_state t st"
  shows "stamped_state t (removeSeries io c st)"
proof -
  have "stamped t (metadata (removeSeries io c st))"
    using assms removeSeries_subset [of io c st]
    by (auto simp: stamped_state_def intro: stamped_subset)
  then show ?thesis
    using removeSeries_file [of io c st] assms
    by (auto simp: stamped_state_def loadMetadata_def)
qed

lemma stamped_cleanOldLoop:
  "stamped_state t st \<Longrightarrow> stamped_state t (cleanOldLoop io now ks st)"
  by (induction ks arbitrary: st) (simp_all add: stamped_removeSeries split: option.split)

lemma stamped_evictLoop:
  "stamped_state t st \<Longrightarrow> stamped_state t (evictLoop io es cur st)"
  by (induction es arbitrary: st cur) (simp_all add: stamped_removeSeries)

lemma stamped_cleanup:
  "stamped_state t st \<Longrightarrow> stamped_state t (cleanup io now st)"
  by (simp add: cleanup_def cleanBySize_def cleanOldEntries_def Let_def
      stamped_cleanOldLoop stamped_evictLoop)

lemma CacheManager_new_Some:
  "CacheManager_new io dir optSize optAge f d = Some st \<Longrightarrow>
   metadata st = loadMetadata f \<and> metadataFile st = f"
  by (auto simp: CacheManager_new_def Let_def ensureCacheDir_def split: if_splits)

lemma reach_stamped: "reach t st \<Longrightarrow> stamped_state t st"
proof (induction rule: reach.induct)
  case (fresh io dir optSize optAge f d st t)
  then show ?case
    by (auto simp: stamped_state_def dest!: CacheManager_new_Some)
next
  case (restart t st io dir optSize optAge st')
  then show ?case
    by (auto simp: stamped_state_def dest!: CacheManager_new_Some)
next
  case (put t st now io seriesCode videoId filePath)
  then show ?case by (simp add: stamped_cacheVideo)
next
  case (get t st now io seriesCode videoId)
  then show ?case by (simp add: stamped_getCachedVideo)
next
  case (remove t st io seriesCode)
  then show ?case by (simp add: stamped_removeSeries)
next
  case (evict t st now io)
  then show ?case
    using stamped_cleanup stamped_state_mono by blast
qed

text \<open>
  C9: in every state the cache manager reaches (from a start without a usable
  index file, through \<^verbatim>\<open>cacheVideo\<close>, \<^verbatim>\<open>getCachedVideo\<close>, \<^verbatim>\<open>removeSeries\<close>,
  \<^verbatim>\<open>cleanup\<close> and restarts over the file it wrote, under any faults), every
  index entry has \<^verbatim>\<open>lastAccessAt\<close> at least \<^verbatim>\<open>createdAt\<close>, provided each reading
  of the clock is at least the one before.
\<close>

theorem access_after_creation:
  assumes "reach t st" and "(c, s) \<in> set (metadata st)"
  shows "createdAt s \<le> lastAccessAt s"
  using reach_stamped [OF assms(1)] assms(2)
  by (auto simp: stamped_state_def stamped_def)

lemma started_cache_new:
  "CacheManager_new no_faults ''./temp/cache'' None None Missing
     [(''./temp/a.mp4'', File 4194304)] = Some started_cache"
  by code_simp

lemma touched_cache_index:
  "metadata touched_cache =
     [(''AB001'', \<lparr>createdAt = 5, lastAccessAt = 9, accessCount = 2,
                   videos = [(''1'', \<lparr>size_bytes = 4194304, cachedAt = 5\<rparr>)]\<rparr>)]"
  by code_simp

theorem access_after_creation_witness:
  "reach 9 touched_cache \<and>
   (''AB001'', \<lparr>createdAt = 5, lastAccessAt = 9, accessCount = 2,
                videos = [(''1'', \<lparr>size_bytes = 4194304, cachedAt = 5\<rparr>)]\<rparr>)
     \<in> set (metadata touched_cache) \<and>
   createdAt \<lparr>createdAt = 5, lastAccessAt = 9, accessCount = 2,
              videos = [(''1'', \<lparr>size_bytes = 4194304, cachedAt = 5\<rparr>)]\<rparr>
     \<le> lastAccessAt \<lparr>createdAt = 5, lastAccessAt = 9, accessCount = 2,
              videos = [(''1'', \<lparr>size_bytes = 4194304, cachedAt = 5\<rparr>)]\<rparr>"
proof -
  have r0: "reach 0 started_cache"
    by (rule reach.fresh [OF started_cache_new]) (simp add: loadMetadata_def)
  have r1: "reach 5 (snd (cacheVideo no_faults 5 ''AB001'' ''1'' ''./temp/a.mp4'' started_cache))"
    by (rule reach.put [OF r0]) simp
  have r2: "reach 9 touched_cache"
    unfolding touched_cache_def by (rule reach.get [OF r1]) simp
  have mem: "(''AB001'', \<lparr>createdAt = 5, lastAccessAt = 9, accessCount = 2,
                videos = [(''1'', \<lparr>size_bytes = 4194304, cachedAt = 5\<rparr>)]\<rparr>)
     \<in> set (metadata touched_cache)"
    by (simp add: touched_cache_index)
  from access_after_creation [OF r2 mem] r2 mem show ?thesis
    by blast
qed

section \<open>Reading: \<^verbatim>\<open>getCachedVideo\<close>\<close>

lemma reach_last_access:
  assumes "reach t st" and "map_of (metadata st) c = Some s"
  shows "lastAccessAt s \<le> t"
proof -
  from assms(2) have "(c, s) \<in> set (metadata st)"
    by (rule map_of_SomeD)
  with reach_stamped [OF assms(1)] show ?thesis
    by (auto simp: stamped_state_def stamped_def)
qed

text \<open>
  C7, as amended: when the file of the item exists and the series has an index
  entry, \<^verbatim>\<open>getCachedVideo\<close> returns the path, sets the entry's
  \<^verbatim>\<open>lastAccessAt\<close> to the clock's reading, adds one to \<^verbatim>\<open>accessCount\<close>, and
  writes the index to \<^verbatim>\<open>metadata.json\<close> unless the write throws; in a state the
  manager reaches, with a clock that has not gone back, the new
  \<^verbatim>\<open>lastAccessAt\<close> is at least the old one. When the file exists and the series
  has no entry, the path is returned and nothing changes. When the file does not
  exist, null is returned and nothing changes.
\<close>

theorem getCachedVideo_touch:
  "(isCached st c v \<and> map_of (metadata st) c = Some s \<longrightarrow>
      fst (getCachedVideo io now c v st) = Some (getVideoPath st c v) \<and>
      map_of (metadata (snd (getCachedVideo io now c v st))) c =
        Some (s\<lparr>lastAccessAt := now, accessCount := accessCount s + 1\<rparr>) \<and>
      (\<not> write_throws io \<longrightarrow>
         metadataFile (snd (getCachedVideo io now c v st)) =
           Saved (metadata (snd (getCachedVideo io now c v st)))) \<and>
      (reach t st \<and> t \<le> now \<longrightarrow> lastAccessAt s \<le> now)) \<and>
   (isCached st c v \<and> map_of (metadata st) c = None \<longrightarrow>
      getCachedVideo io now c v st = (Some (getVideoPath st c v), st)) \<and>
   (\<not> isCached st c v \<longrightarrow> getCachedVideo io now c v st = (None, st))"
proof -
  have "lastAccessAt s \<le> now" if "map_of (metadata st) c = Some s" "reach t st" "t \<le> now"
    using reach_last_access [OF that(2) that(1)] that(3) by simp
  then show ?thesis
    by (simp add: getCachedVideo_def Let_def isCached_def updateAccessTime_def saveMetadata_def
        update_conv')
qed

lemma stored_cache_index:
  "map_of (metadata stored_cache) ''AB001'' =
     Some \<lparr>createdAt = 5, lastAccessAt = 5, accessCount = 1,
           videos = [(''1'', \<lparr>size_bytes = 4194304, cachedAt = 5\<rparr>)]\<rparr>"
  by code_simp

theorem getCachedVideo_touch_witness:
  "isCached stored_cache ''AB001'' ''1'' \<and>
   map_of (metadata stored_cache) ''AB001'' =
     Some \<lparr>createdAt = 5, lastAccessAt = 5, accessCount = 1,
           videos = [(''1'', \<lparr>size_bytes = 4194304, cachedAt = 5\<rparr>)]\<rparr> \<and>
   reach 5 stored_cache \<and>
   fst (getCachedVideo no_faults 9 ''AB001'' ''1'' stored_cache) =
     Some (getVideoPath stored_cache ''AB001'' ''1'') \<and>
   map_of (metadata (snd (getCachedVideo no_faults 9 ''AB001'' ''1'' stored_cache))) ''AB001'' =
     Some \<lparr>createdAt = 5, lastAccessAt = 9, accessCount = 2,
           videos = [(''1'', \<lparr>size_bytes = 4194304, cachedAt = 5\<rparr>)]\<rparr> \<and>
   metadataFile (snd (getCachedVideo no_faults 9 ''AB001'' ''1'' stored_cache)) =
     Saved (metadata (snd (getCachedVideo no_faults 9 ''AB001'' ''1'' stored_cache))) \<and>
   \<not> isCached stored_cache ''AB001'' ''7'' \<and>
   getCachedVideo no_faults 9 ''AB001'' ''7'' stored_cache = (None, stored_cache)"
proof -
  let ?s = "\<lparr>createdAt = 5, lastAccessAt = 5, accessCount = 1,
             videos = [(''1'', \<lparr>size_bytes = 4194304, cachedAt = 5\<rparr>)]\<rparr>"
  have hit: "isCached stored_cache ''AB001'' ''1''"
    by code_simp
  have miss: "\<not> isCached stored_cache ''AB001'' ''7''"
    by code_simp
  have ok: "\<not> write_throws no_faults"
    by (simp add: no_faults_def)
  have r0: "reach 0 started_cache"
    by (rule reach.fresh [OF started_cache_new]) (simp add: loadMetadata_def)
  have r1: "reach 5 stored_cache"
    unfolding stored_cache_def by (rule reach.put [OF r0]) simp
  show ?thesis
    using hit miss ok r1 stored_cache_index
      getCachedVideo_touch [of stored_cache "''AB001''" "''1''" ?s no_faults 9 5]
      getCachedVideo_touch [of stored_cache "''AB001''" "''7''" ?s no_faults 9 5]
    by simp
qed

text \<open>
  C7 as stated fails where the file of the item exists and the series has no
  index entry: \<open>orphan_cache\<close> is the manager constructed over the files of
  \<open>example_cache\<close> and an unparseable \<^verbatim>\<open>metadata.json\<close>, and there
  \<^verbatim>\<open>getCachedVideo\<close> returns the path without touching the index or the file.
  And when the write throws, the index in memory is updated while
  \<^verbatim>\<open>metadata.json\<close> keeps the old one.
\<close>

theorem getCachedVideo_touch_counterexample:
  "CacheManager_new no_faults ''./temp/cache'' (Some 10) (Some 5) Unparseable (disk example_cache) =
     Some orphan_cache \<and>
   isCached orphan_cache ''AB001'' ''1'' \<and>
   metadata orphan_cache = [] \<and>
   getCachedVideo no_faults 12 ''AB001'' ''1'' orphan_cache =
     (Some ''./temp/cache/AB001/1.mp4'', orphan_cache) \<and>
   metadataFile (snd (getCachedVideo write_fails 12 ''AB001'' ''1'' example_cache)) =
     Saved [(''AB001'', example_series)] \<and>
   map (\<lambda>(c, s). (c, lastAccessAt s, accessCount s))
     (metadata (snd (getCachedVideo write_fails 12 ''AB001'' ''1'' example_cache))) =
     [(''AB001'', 12, 4)] \<and>
   lastAccessAt example_series = 9 \<and> accessCount example_series = 3"
  by code_simp


section \<open>The handler and the lock\<close>

lemma keeps_locksD:
  "keeps_locks f \<Longrightarrow> f h = (r, h') \<Longrightarrow>
   activeRequests h' = activeRequests h \<and> lockLog h' = lockLog h"
  by (metis keeps_locks_def snd_conv)

lemma keeps_locks_deliver: "keeps_locks (deliver E chatId m)"
  by (simp add: keeps_locks_def deliver_def)

lemma keeps_locks_andThen:
  assumes "keeps_locks f" and "keeps_locks g"
  shows "keeps_locks (\<lambda>h. andThen (f h) g)"
  unfolding keeps_locks_def
proof (intro allI)
  fix h :: handler
  obtain r h1 where f: "f h = (r, h1)" by (cases "f h")
  note f1 = keeps_locksD [OF assms(1) f]
  show "activeRequests (snd (andThen (f h) g)) = activeRequests h \<and>
        lockLog (snd (andThen (f h) g)) = lockLog h"
  proof (cases r)
    case Returned
    obtain r2 h2 where g: "g h1 = (r2, h2)" by (cases "g h1")
    from keeps_locksD [OF assms(2) g] f1 Returned f g show ?thesis
      by (simp add: andThen_def)
  next
    case Thrown
    with f f1 show ?thesis by (simp add: andThen_def)
  qed
qed

lemma keeps_locks_cache: "keeps_locks (\<lambda>h. (r h, h\<lparr>cacheManager := g h\<rparr>))"
  by (simp add: keeps_locks_def)

lemma keeps_locks_updateUserRequest: "keeps_locks (updateUserRequest E chatId c)"
  by (simp add: keeps_locks_def updateUserRequest_def)

lemma keeps_locks_sendFile: "keeps_locks (sendFile E chatId k n video p cached)"
proof -
  have tail: "keeps_locks (\<lambda>h2. if \<not> cached \<and> existsSync (disk (cacheManager h2)) p
                then (if unlink_throws E p then (Thrown, h2)
                      else (Returned,
                            h2\<lparr>cacheManager := (cacheManager h2)
                                 \<lparr>disk := unlinkSync p (disk (cacheManager h2))\<rparr>\<rparr>))
                else (Returned, h2))"
    by (simp add: keeps_locks_def)
  have "keeps_locks (\<lambda>h. andThen (deliver E chatId (Video k n p (caption video)) h)
          (\<lambda>h2. if \<not> cached \<and> existsSync (disk (cacheManager h2)) p
                then (if unlink_throws E p then (Thrown, h2)
                      else (Returned,
                            h2\<lparr>cacheManager := (cacheManager h2)
                                 \<lparr>disk := unlinkSync p (disk (cacheManager h2))\<rparr>\<rparr>))
                else (Returned, h2)))"
    by (rule keeps_locks_andThen [OF keeps_locks_deliver tail])
  then show ?thesis
    unfolding keeps_locks_def sendFile_def by simp
qed

lemma keeps_locks_sendOne: "keeps_locks (sendOne E chatId c n i video)"
  unfolding keeps_locks_def
proof (intro allI)
  fix h :: handler
  obtain cp cm1 where g: "getCachedVideo (cache_faults E) (clock E i) c (toString (id_v video))
      (cacheManager h) = (cp, cm1)"
    by (cases "getCachedVideo (cache_faults E) (clock E i) c (toString (id_v video))
                 (cacheManager h)")
  note sf = keeps_locks_sendFile [unfolded keeps_locks_def, rule_format]
  show "activeRequests (snd (sendOne E chatId c n i video h)) = activeRequests h \<and>
        lockLog (snd (sendOne E chatId c n i video h)) = lockLog h"
  proof (cases cp)
    case (Some p)
    with g show ?thesis by (simp add: sendOne_def Let_def sf)
  next
    case None
    show ?thesis
    proof (cases "downloadVideo E video")
      case dn: None
      with None g show ?thesis by (simp add: sendOne_def Let_def)
    next
      case (Some a)
      obtain filePath sz where a: "a = (filePath, sz)" by (cases a)
      with None g Some show ?thesis by (simp add: sendOne_def Let_def sf)
    qed
  qed
qed

text \<open>The loop over the videos never touches the map, whatever fails in it.\<close>

lemma keeps_locks_sendLoop: "keeps_locks (sendLoop E chatId c n i vs)"
proof (induction vs arbitrary: i)
  case Nil
  show ?case by (simp add: keeps_locks_def)
next
  case (Cons v vs)
  show ?case
    unfolding keeps_locks_def
  proof (intro allI)
    fix h :: handler
    obtain r h1 where s: "sendOne E chatId c n i v h = (r, h1)"
      by (cases "sendOne E chatId c n i v h")
    note s1 = keeps_locksD [OF keeps_locks_sendOne s]
    note ih = Cons.IH [of "i + 1", unfolded keeps_locks_def, rule_format]
    show "activeRequests (snd (sendLoop E chatId c n i (v # vs) h)) = activeRequests h \<and>
          lockLog (snd (sendLoop E chatId c n i (v # vs) h)) = lockLog h"
    proof (cases r)
      case Returned
      with s s1 ih show ?thesis by simp
    next
      case Thrown
      have "keeps_locks (\<lambda>h1. andThen (deliver E chatId (Skipping (i + 1)) h1)
                (sendLoop E chatId c n (i + 1) vs))"
        by (rule keeps_locks_andThen [OF keeps_locks_deliver Cons.IH])
      from this [unfolded keeps_locks_def, rule_format, of h1] Thrown s s1
      show ?thesis by simp
    qed
  qed
qed

lemma keeps_locks_sendVideosInOrder: "keeps_locks (sendVideosInOrder E vs chatId c)"
  unfolding sendVideosInOrder_def
  by (rule keeps_locks_andThen [OF keeps_locks_sendLoop keeps_locks_cache])

text \<open>
  What the try block does to the map: it sets the key, and on the way of the
  empty video list it deletes it again before returning.
\<close>

lemma tryBlock_locks:
  fixes h :: handler and mapping E c chatId
  defines "h' \<equiv> snd (tryBlock mapping E c chatId h)"
  shows "activeRequests h' =
           (if early_return mapping E c chatId then (activeRequests h)(chatId := None)
            else (activeRequests h)(chatId \<mapsto> c)) \<and>
         lockLog h' =
           lockLog h @ [LockSet chatId c] @
             (if early_return mapping E c chatId then [LockDelete chatId True] else [])"
proof -
  define rest where
    "rest videoList = (\<lambda>h1.
        let videoIds = map (\<lambda>v. toString (id_v v)) videoList;
            isCached = isSeriesCached (cacheManager h1) c videoIds
        in andThen
             (deliver E chatId
                (if isCached then FoundCached (length videoList)
                 else FoundDownloading (length videoList)) h1)
             (\<lambda>h2. andThen (sendVideosInOrder E videoList chatId c h2)
                (\<lambda>h3. andThen (updateUserRequest E chatId c h3)
                   (deliver E chatId AllSent))))" for videoList
  have rest: "keeps_locks (rest videoList)" for videoList
  proof -
    have a: "keeps_locks (\<lambda>h3. andThen (updateUserRequest E chatId c h3)
                            (deliver E chatId AllSent))"
      by (rule keeps_locks_andThen [OF keeps_locks_updateUserRequest keeps_locks_deliver])
    have b: "keeps_locks (\<lambda>h2. andThen (sendVideosInOrder E videoList chatId c h2)
                (\<lambda>h3. andThen (updateUserRequest E chatId c h3) (deliver E chatId AllSent)))"
      by (rule keeps_locks_andThen [OF keeps_locks_sendVideosInOrder a])
    have c: "keeps_locks (\<lambda>h1. andThen (deliver E chatId m h1)
               (\<lambda>h2. andThen (sendVideosInOrder E videoList chatId c h2)
                (\<lambda>h3. andThen (updateUserRequest E chatId c h3)
                   (deliver E chatId AllSent))))" for m
      by (rule keeps_locks_andThen [OF keeps_locks_deliver b])
    show ?thesis
      unfolding rest_def Let_def keeps_locks_def
      using c [unfolded keeps_locks_def] by simp
  qed
  define h0 where "h0 = lockSet chatId c h"
  have t: "tryBlock mapping E c chatId h =
      (case getTelegramGroup mapping c of
         None \<Rightarrow> (Thrown, h0)
       | Some groupUsername \<Rightarrow>
           andThen (deliver E chatId (FoundSeries c) h0)
             (\<lambda>h1. case fetchVideosFromGroup E groupUsername of
                      None \<Rightarrow> (Thrown, h1)
                    | Some videoList \<Rightarrow>
                        if length videoList = 0
                        then andThen (deliver E chatId NoVideos h1)
                               (\<lambda>h2. (Returned, lockDelete chatId h2))
                        else rest videoList h1))"
    unfolding tryBlock_def rest_def h0_def Let_def by (rule refl)
  have h0: "activeRequests h0 = (activeRequests h)(chatId \<mapsto> c)"
    "lockLog h0 = lockLog h @ [LockSet chatId c]"
    by (simp_all add: h0_def lockSet_def)
  show ?thesis
  proof (cases "getTelegramGroup mapping c")
    case None
    with h0 show ?thesis by (simp add: h'_def t early_return_def)
  next
    case (Some g)
    show ?thesis
    proof (cases "deliver_throws E chatId (FoundSeries c)")
      case True
      with Some h0 show ?thesis
        by (simp add: h'_def t early_return_def deliver_def andThen_def)
    next
      case False
      define h1 where "h1 = h0\<lparr>outbox := outbox h0 @ [(chatId, FoundSeries c)]\<rparr>"
      have h1: "activeRequests h1 = (activeRequests h)(chatId \<mapsto> c)"
        "lockLog h1 = lockLog h @ [LockSet chatId c]"
        using h0 by (simp_all add: h1_def)
      have t1: "tryBlock mapping E c chatId h =
        (case fetchVideosFromGroup E g of
                      None \<Rightarrow> (Thrown, h1)
                    | Some videoList \<Rightarrow>
                        if length videoList = 0
                        then andThen (deliver E chatId NoVideos h1)
                               (\<lambda>h2. (Returned, lockDelete chatId h2))
                        else rest videoList h1)"
        unfolding h1_def using Some False by (simp add: t deliver_def andThen_def)
      show ?thesis
      proof (cases "fetchVideosFromGroup E g")
        case None
        with Some False h1 show ?thesis
          by (simp add: h'_def t1 early_return_def)
      next
        case fetched: (Some videoList)
        show ?thesis
        proof (cases "videoList = []")
          case True
          with Some False fetched h1 show ?thesis
            by (simp add: h'_def t1 early_return_def deliver_def andThen_def lockDelete_def)
        next
          case False
          obtain r h2 where r: "rest videoList h1 = (r, h2)"
            by (cases "rest videoList h1")
          from keeps_locksD [OF rest r] h1 r Some fetched False show ?thesis
            by (simp add: h'_def t1 early_return_def)
        qed
      qed
    qed
  qed
qed

text \<open>
  C1: every run of \<^verbatim>\<open>handleSeriesRequest\<close> that marks the chat busy (the chat
  has no request in flight and the series is configured) ends with the chat idle
  again and every other key as it was, and on the map it has made these calls
  and no other: the set, and one delete that found the key. On the way of the
  empty video list the finally block deletes once more and finds nothing to
  release. This holds whatever the collaborators do: whether replies, the fetch,
  downloads, sends or file operations fail, for any list of videos.
\<close>

theorem lock_released_once:
  assumes "activeRequests h chatId = None"
      and "isValidSeries mapping (toUpperCase seriesCode)"
  shows "activeRequests (snd (handleSeriesRequest mapping E seriesCode chatId h)) =
           activeRequests h \<and>
         lockLog (snd (handleSeriesRequest mapping E seriesCode chatId h)) =
           lockLog h @ [LockSet chatId (toUpperCase seriesCode), LockDelete chatId True] @
             (if early_return mapping E (toUpperCase seriesCode) chatId
              then [LockDelete chatId False] else [])"
proof -
  define c where "c = toUpperCase seriesCode"
  obtain r h1 where t: "tryBlock mapping E c chatId h = (r, h1)"
    by (cases "tryBlock mapping E c chatId h")
  define r' where "r' = (case (r, h1) of
                         (Thrown, h1) \<Rightarrow> deliver E chatId RequestFailed h1
                       | (Returned, h1) \<Rightarrow> (Returned, h1))"
  have fin: "handleSeriesRequest mapping E seriesCode chatId h =
             (fst r', lockDelete chatId (snd r'))"
    using assms t by (simp add: handleSeriesRequest_def Let_def c_def r'_def)
  have keep: "activeRequests (snd r') = activeRequests h1 \<and> lockLog (snd r') = lockLog h1"
    by (cases r) (simp_all add: r'_def deliver_def)
  from tryBlock_locks [of mapping E c chatId h] t
  have h1: "activeRequests h1 =
           (if early_return mapping E c chatId then (activeRequests h)(chatId := None)
            else (activeRequests h)(chatId \<mapsto> c))"
    "lockLog h1 = lockLog h @ [LockSet chatId c] @
             (if early_return mapping E c chatId then [LockDelete chatId True] else [])"
    by simp_all
  have none: "(activeRequests h)(chatId := None) = activeRequests h"
    using assms(1) by auto
  show ?thesis
    using keep h1 none assms(1)
    by (simp add: fin lockDelete_def c_def [symmetric])
qed

lemma upper_ab001: "toUpperCase ''ab001'' = ''AB001''"
  by code_simp

lemma upper_ab002: "toUpperCase ''ab002'' = ''AB002''"
  by code_simp

lemma upper_AB001: "toUpperCase ''AB001'' = ''AB001''"
  by code_simp

lemma upper_AB002: "toUpperCase ''AB002'' = ''AB002''"
  by code_simp

theorem lock_released_once_witness:
  "activeRequests idle_handler ''u1'' = None \<and>
   isValidSeries seriesMapping (toUpperCase ''ab001'') \<and>
   lockLog (snd (handleSeriesRequest seriesMapping example_env ''ab001'' ''u1'' idle_handler)) =
     [LockSet ''u1'' ''AB001'', LockDelete ''u1'' True] \<and>
   activeRequests (snd (handleSeriesRequest seriesMapping example_env ''ab001'' ''u1'' idle_handler))
     = activeRequests idle_handler \<and>
   isValidSeries seriesMapping (toUpperCase ''ab002'') \<and>
   lockLog (snd (handleSeriesRequest seriesMapping example_env ''ab002'' ''u1'' idle_handler)) =
     [LockSet ''u1'' ''AB002'', LockDelete ''u1'' True, LockDelete ''u1'' False]"
proof -
  have idle: "activeRequests idle_handler ''u1'' = None" "lockLog idle_handler = []"
    by (simp_all add: idle_handler_def)
  have v1: "isValidSeries seriesMapping (toUpperCase ''ab001'')"
    by code_simp
  have v2: "isValidSeries seriesMapping (toUpperCase ''ab002'')"
    by code_simp
  have e1: "\<not> early_return seriesMapping example_env ''AB001'' ''u1''"
    by code_simp
  have e2: "early_return seriesMapping example_env ''AB002'' ''u1''"
    by code_simp
  show ?thesis
    using idle v1 v2 e1 e2
      lock_released_once [OF idle(1) v1, of example_env]
      lock_released_once [OF idle(1) v2, of example_env]
    by (simp add: upper_ab001 upper_ab002)
qed

text \<open>A whole request, run on the example: the chat gets four messages in order.\<close>

lemma handleSeriesRequest_example:
  "fst (handleSeriesRequest seriesMapping example_env ''ab001'' ''u1'' idle_handler) = Returned \<and>
   outbox (snd (handleSeriesRequest seriesMapping example_env ''ab001'' ''u1'' idle_handler)) =
     [(''u1'', FoundSeries ''AB001''), (''u1'', FoundCached 1),
      (''u1'', Video 1 1 ''./temp/cache/AB001/1.mp4'' ''one''), (''u1'', AllSent)]"
  by code_simp

section \<open>Requests for a busy chat\<close>

lemma in_flight_add:
  "in_flight (s\<lparr>running := add_mset (chatId, t) (running s)\<rparr>) k =
     (if k = chatId \<and> is_working t then Suc (in_flight s k) else in_flight s k)"
  by (auto simp: in_flight_def)

lemma in_flight_add_locks:
  "in_flight (s\<lparr>locks := l, running := add_mset (chatId, t) (running s)\<rparr>) k =
     (if k = chatId \<and> is_working t then Suc (in_flight s k) else in_flight s k)"
  by (auto simp: in_flight_def)

lemma in_flight_remove:
  assumes "(chatId, t) \<in># running s"
  shows "in_flight (s\<lparr>running := running s - {#(chatId, t)#}\<rparr>) k =
     (if k = chatId \<and> is_working t then in_flight s k - 1 else in_flight s k)"
  using assms by (auto simp: in_flight_def filter_diff_mset size_Diff_singleton)

lemma in_flight_remove_locks:
  assumes "(chatId, t) \<in># running s"
  shows "in_flight (s\<lparr>locks := l, running := running s - {#(chatId, t)#}\<rparr>) k =
     (if k = chatId \<and> is_working t then in_flight s k - 1 else in_flight s k)"
  using assms by (auto simp: in_flight_def filter_diff_mset size_Diff_singleton)

lemma admit_Working:
  "admit mapping seriesCode chatId active = Working c \<Longrightarrow>
   active chatId = None \<and> c = toUpperCase seriesCode \<and> isValidSeries mapping c"
  by (auto simp: admit_def Let_def split: if_splits)

text \<open>
  The first step of \<^verbatim>\<open>handleSeriesRequest\<close> is the decision \<open>admit\<close> that the
  step \<open>request\<close> of the system takes.
\<close>

lemma handleSeriesRequest_admit:
  "handleSeriesRequest mapping E seriesCode chatId h =
     (case admit mapping seriesCode chatId (activeRequests h) of
        Rejecting \<Rightarrow> deliver E chatId PleaseWait h
      | Refusing \<Rightarrow> deliver E chatId (SeriesNotFound (toUpperCase seriesCode)) h
      | Working c \<Rightarrow>
          (let r = tryBlock mapping E c chatId h;
               r' = (case r of
                       (Thrown, h1) \<Rightarrow> deliver E chatId RequestFailed h1
                     | (Returned, h1) \<Rightarrow> (Returned, h1))
           in (fst r', lockDelete chatId (snd r'))))"
  by (simp add: handleSeriesRequest_def admit_def Let_def)

lemma lock_inv_request:
  assumes "lock_inv s"
  shows "lock_inv (request mapping seriesCode chatId s)"
proof (cases "admit mapping seriesCode chatId (locks s)")
  case Rejecting
  with assms show ?thesis
    by (simp add: request_def lock_inv_def in_flight_add is_working_def)
next
  case Refusing
  with assms show ?thesis
    by (simp add: request_def lock_inv_def in_flight_add is_working_def)
next
  case (Working c)
  from admit_Working [OF Working] have "locks s chatId = None" by simp
  with assms Working show ?thesis
    by (simp add: request_def lock_inv_def in_flight_add_locks is_working_def)
qed

lemma lock_inv_settle:
  assumes "lock_inv s" and "(chatId, t) \<in># running s"
  shows "lock_inv (settle chatId t s)"
proof (cases t)
  case Rejecting
  with assms show ?thesis
    by (simp add: settle_def lock_inv_def in_flight_remove is_working_def)
next
  case Refusing
  with assms show ?thesis
    by (simp add: settle_def lock_inv_def in_flight_remove is_working_def)
next
  case (Working c)
  have "in_flight s chatId \<ge> 1"
  proof -
    have "(chatId, t) \<in># filter_mset (\<lambda>(k, t). k = chatId \<and> is_working t) (running s)"
      using assms(2) Working by (simp add: is_working_def)
    then have "filter_mset (\<lambda>(k, t). k = chatId \<and> is_working t) (running s) \<noteq> {#}"
      by auto
    then have "size (filter_mset (\<lambda>(k, t). k = chatId \<and> is_working t) (running s)) \<noteq> 0"
      by (simp only: size_eq_0_iff_empty not_False_eq_True)
    then show ?thesis
      unfolding in_flight_def by linarith
  qed
  with assms(1) have one: "in_flight s chatId = 1"
    by (auto simp: lock_inv_def split: if_splits)
  show ?thesis
    unfolding lock_inv_def
  proof
    fix k
    show "in_flight (settle chatId t s) k = (if locks (settle chatId t s) k = None then 0 else 1)"
      using assms one Working
      by (auto simp: settle_def lock_inv_def in_flight_remove_locks is_working_def)
  qed
qed

lemma reachable_lock_inv: "reachable mapping s \<Longrightarrow> lock_inv s"
proof (induction rule: reachable.induct)
  case start
  show ?case by (simp add: lock_inv_def in_flight_def)
next
  case (request s seriesCode chatId)
  then show ?case by (simp add: lock_inv_request)
next
  case (settle s chatId t)
  then show ?case by (simp add: lock_inv_settle)
qed

text \<open>
  C2: a request for a chat that is busy, whatever series it names, is answered
  by the wait message alone (or by nothing when that reply is rejected): the map,
  the log of its calls, the cache and the database record are as before, so the
  request is not queued and the one in flight is not disturbed. As a step of the
  system the request joins the running calls as a rejected one and leaves the
  locks alone; and in every state the system reaches, at most one call per chat
  is at work between its set and its delete.
\<close>

theorem busy_rejected:
  "(activeRequests h chatId \<noteq> None \<longrightarrow>
      handleSeriesRequest mapping E seriesCode chatId h =
        (if deliver_throws E chatId PleaseWait then (Thrown, h)
         else (Returned, h\<lparr>outbox := outbox h @ [(chatId, PleaseWait)]\<rparr>))) \<and>
   (locks s chatId \<noteq> None \<longrightarrow>
      request mapping seriesCode chatId s =
        s\<lparr>running := add_mset (chatId, Rejecting) (running s)\<rparr>) \<and>
   (reachable mapping s \<longrightarrow> in_flight s chatId \<le> 1)"
proof (intro conjI impI)
  assume "activeRequests h chatId \<noteq> None"
  then show "handleSeriesRequest mapping E seriesCode chatId h =
        (if deliver_throws E chatId PleaseWait then (Thrown, h)
         else (Returned, h\<lparr>outbox := outbox h @ [(chatId, PleaseWait)]\<rparr>))"
    by (simp add: handleSeriesRequest_def deliver_def)
next
  assume "locks s chatId \<noteq> None"
  then show "request mapping seriesCode chatId s =
        s\<lparr>running := add_mset (chatId, Rejecting) (running s)\<rparr>"
    by (simp add: request_def admit_def)
next
  assume "reachable mapping s"
  then have "lock_inv s" by (rule reachable_lock_inv)
  then show "in_flight s chatId \<le> 1"
    by (simp add: lock_inv_def)
qed

lemma two_requests_eq:
  "locks two_requests ''u1'' = Some ''AB001'' \<and>
   running two_requests = {#(''u1'', Rejecting), (''u1'', Working ''AB001'')#}"
  by (simp add: two_requests_def request_def admit_def upper_ab001 upper_ab002 upper_AB001
      upper_AB002 Let_def isValidSeries_def seriesMapping_def)

theorem busy_rejected_witness:
  "activeRequests busy_handler ''u1'' \<noteq> None \<and>
   handleSeriesRequest seriesMapping example_env ''ab002'' ''u1'' busy_handler =
     (Returned, busy_handler\<lparr>outbox := outbox busy_handler @ [(''u1'', PleaseWait)]\<rparr>) \<and>
   reachable seriesMapping two_requests \<and>
   running two_requests = {#(''u1'', Rejecting), (''u1'', Working ''AB001'')#} \<and>
   in_flight two_requests ''u1'' \<le> 1"
proof -
  have busy: "activeRequests busy_handler ''u1'' \<noteq> None"
    by (simp add: busy_handler_def)
  have sent: "\<not> deliver_throws example_env ''u1'' PleaseWait"
    by (simp add: example_env_def)
  have r: "reachable seriesMapping two_requests"
    unfolding two_requests_def
    by (intro reachable.request reachable.start)
  show ?thesis
    using busy sent r two_requests_eq
      busy_rejected [of busy_handler "''u1''" seriesMapping example_env "''ab002''"
        two_requests]
    by simp
qed

end
